theory Spec2Isabelle
  imports Complex_Main "HOL-Library.Word"
begin

section \<open>JavaScript strings and errors\<close>

text \<open>
  A JavaScript string is a sequence of UTF-16 code units. The mock token codec of
  \<^verbatim>\<open>auth.ts\<close> passes strings through \<^verbatim>\<open>JSON.stringify\<close>, \<^verbatim>\<open>btoa\<close>,
  \<^verbatim>\<open>String.prototype.split\<close>, \<^verbatim>\<open>atob\<close> and \<^verbatim>\<open>JSON.parse\<close>; these platform
  functions are modelled after ECMA-262 and the HTML standard, on code units.
\<close>

type_synonym code_unit = "16 word"
type_synonym jsstring = "code_unit list"

definition ascii :: "string \<Rightarrow> jsstring" where
  "ascii s = map of_char s"

text \<open>
  Single characters are written as their code units:
  \<open>0x09\<close> tab, \<open>0x0A\<close> line feed, \<open>0x0C\<close> form feed, \<open>0x0D\<close> carriage return,
  \<open>0x20\<close> space, \<open>0x22\<close> double quote, \<open>0x2B\<close> plus, \<open>0x2C\<close> comma, \<open>0x2D\<close> minus,
  \<open>0x2E\<close> full stop, \<open>0x2F\<close> slash, \<open>0x30\<close> to \<open>0x39\<close> the digits, \<open>0x3A\<close> colon,
  \<open>0x3D\<close> equals sign, \<open>0x45\<close> and \<open>0x65\<close> the letter e, \<open>0x5B\<close> and \<open>0x5D\<close> the
  square brackets, \<open>0x5C\<close> backslash, \<open>0x62\<close> b, \<open>0x66\<close> f, \<open>0x6E\<close> n, \<open>0x72\<close> r,
  \<open>0x74\<close> t, \<open>0x75\<close> u, \<open>0x7B\<close> and \<open>0x7D\<close> the braces.
\<close>

text \<open>
  The exceptions that can be thrown: the DOMException \<^verbatim>\<open>InvalidCharacterError\<close> of
  \<^verbatim>\<open>btoa\<close> and \<^verbatim>\<open>atob\<close>, the \<^verbatim>\<open>SyntaxError\<close> of \<^verbatim>\<open>JSON.parse\<close>, the
  \<^verbatim>\<open>TypeError\<close> of a property read on \<^verbatim>\<open>null\<close>, the DOMException
  \<^verbatim>\<open>SecurityError\<close> of the \<^verbatim>\<open>localStorage\<close> getter, and \<^verbatim>\<open>new Error(message)\<close>.
\<close>

datatype error = InvalidCharacterError | SyntaxError | TypeError | SecurityError | Error string

section \<open>Numbers\<close>

text \<open>
  A JavaScript Number is an IEEE 754 binary64 value. The finite ones are rationals, and an
  arithmetic operation gives the exact result rounded to the nearest binary64 value, to the
  one with an even significand in a tie. \<open>round_half_even\<close> rounds to an integer that way.
\<close>

definition round_half_even :: "rat \<Rightarrow> int" where
  "round_half_even y =
     (let f = \<lfloor>y\<rfloor>; d = y - of_int f
      in if d < 1 / 2 then f else if 1 / 2 < d then f + 1 else if even f then f else f + 1)"

text \<open>The largest power of two that is not above a positive number.\<close>

function pow2_below :: "rat \<Rightarrow> rat" where
  "pow2_below a =
     (if a \<le> 0 then 1
      else if 2 \<le> a then 2 * pow2_below (a / 2)
      else if a < 1 then pow2_below (2 * a) / 2
      else 1)"
  by pat_completeness auto
termination
proof (relation "measure (\<lambda>a. nat (2 * \<lceil>1 / a\<rceil> + \<lfloor>a\<rfloor>))", goal_cases)
  case 1
  show ?case by simp
next
  case (2 a)
  then have a: "2 \<le> a" by simp
  have "\<lfloor>a / 2\<rfloor> \<le> \<lfloor>a - 1\<rfloor>" using a by (intro floor_mono) simp
  then have f: "\<lfloor>a / 2\<rfloor> < \<lfloor>a\<rfloor>" by simp
  have f0: "0 \<le> \<lfloor>a / 2\<rfloor>" using a by simp
  have "0 < 1 / a" "1 / a \<le> 1" using a by simp_all
  then have c1: "\<lceil>1 / a\<rceil> = 1" by (simp add: ceiling_eq_iff)
  have "0 < 2 / a" "2 / a \<le> 1" using a by simp_all
  then have c2: "\<lceil>2 / a\<rceil> = 1" by (simp add: ceiling_eq_iff)
  have "2 * \<lceil>1 / (a / 2)\<rceil> + \<lfloor>a / 2\<rfloor> < 2 * \<lceil>1 / a\<rceil> + \<lfloor>a\<rfloor>"
    using f c1 c2 by simp
  moreover have "0 < 2 * \<lceil>1 / a\<rceil> + \<lfloor>a\<rfloor>" using c1 f f0 by linarith
  ultimately show ?case by (simp only: in_measure zless_nat_conj)
next
  case (3 a)
  then have a: "0 < a" "a < 1" by simp_all
  then have y: "1 < 1 / a" by simp
  have "(1::int) < \<lceil>1 / a\<rceil>" unfolding less_ceiling_iff using y by simp
  then have c: "2 \<le> \<lceil>1 / a\<rceil>" by simp
  have "1 / a \<le> of_int \<lceil>1 / a\<rceil>" by (rule le_of_int_ceiling)
  then have "1 / (2 * a) \<le> of_int \<lceil>1 / a\<rceil> / 2" by simp
  also have "\<dots> \<le> of_int (\<lceil>1 / a\<rceil> - 1)" using c by simp
  finally have c': "\<lceil>1 / (2 * a)\<rceil> \<le> \<lceil>1 / a\<rceil> - 1" by (simp only: ceiling_le_iff)
  have f2: "\<lfloor>2 * a\<rfloor> \<le> 1" using a by (simp add: floor_le_iff)
  have f0: "\<lfloor>a\<rfloor> = 0" using a by (simp add: floor_eq_iff)
  have "2 * \<lceil>1 / (2 * a)\<rceil> + \<lfloor>2 * a\<rfloor> < 2 * \<lceil>1 / a\<rceil> + \<lfloor>a\<rfloor>"
    using c' f2 f0 by linarith
  moreover have "0 < 2 * \<lceil>1 / a\<rceil> + \<lfloor>a\<rfloor>" using c f0 by linarith
  ultimately show ?case by (simp only: in_measure zless_nat_conj)
qed

declare pow2_below.simps [simp del]

text \<open>
  The distance between neighbouring binary64 values at \<open>a\<close>: the significand has 53 bits,
  and below \<open>2\<^sup>-\<^sup>1\<^sup>0\<^sup>2\<^sup>2\<close> the values are the multiples of \<open>2\<^sup>-\<^sup>1\<^sup>0\<^sup>7\<^sup>4\<close>.
\<close>

definition quantum :: "rat \<Rightarrow> rat" where
  "quantum a = max (pow2_below a) (1 / 2 ^ 1022) / 2 ^ 52"

text \<open>
  Rounding to binary64: \<open>nearest64\<close> is the multiple of the quantum nearest to a positive
  number. \<open>None\<close> is a result that is not finite: a magnitude that rounds to \<open>2\<^sup>1\<^sup>0\<^sup>2\<^sup>4\<close> or
  more is \<^verbatim>\<open>Infinity\<close>.
\<close>

definition nearest64 :: "rat \<Rightarrow> rat" where
  "nearest64 a = of_int (round_half_even (a / quantum a)) * quantum a"

definition round64 :: "rat \<Rightarrow> rat option" where
  "round64 x =
     (if x = 0 then Some 0
      else
        (let v = nearest64 \<bar>x\<bar>
         in if 2 ^ 1024 \<le> v then None else Some (sgn x * v)))"

text \<open>
  The Numbers that \<^verbatim>\<open>JSON.parse\<close> can give: a finite value (\<open>Finite 0\<close> is \<open>+0\<close>), the
  negative zero, and the two infinities of a numeral too large for binary64. A numeral is
  read as the binary64 value nearest to the decimal number written.
\<close>

datatype number = Finite rat | NegativeZero | PlusInfinity | MinusInfinity

definition to_Number :: "bool \<Rightarrow> rat \<Rightarrow> number" where
  "to_Number negative x =
     (case round64 x of
        None \<Rightarrow> if negative then MinusInfinity else PlusInfinity
      | Some v \<Rightarrow>
          if negative then (if v = 0 then NegativeZero else Finite (- v)) else Finite v)"

section \<open>Base64: \<^verbatim>\<open>btoa\<close> and \<^verbatim>\<open>atob\<close>\<close>

definition b64_char :: "nat \<Rightarrow> code_unit" where
  "b64_char n =
     of_nat (if n < 26 then 65 + n
             else if n < 52 then 97 + (n - 26)
             else if n < 62 then 48 + (n - 52)
             else if n = 62 then 0x2B
             else 0x2F)"

definition b64_index :: "code_unit \<Rightarrow> nat option" where
  "b64_index c =
     (let k = unat c in
      if 65 \<le> k \<and> k \<le> 90 then Some (k - 65)
      else if 97 \<le> k \<and> k \<le> 122 then Some (k - 71)
      else if 48 \<le> k \<and> k \<le> 57 then Some (k + 4)
      else if k = 43 then Some 62
      else if k = 47 then Some 63
      else None)"

text \<open>RFC 4648 encoding of a list of bytes, three bytes to four characters, padded with \<open>=\<close>.\<close>

fun base64_encode :: "nat list \<Rightarrow> jsstring" where
  "base64_encode (a # b # c # bs) =
     b64_char (a div 4) # b64_char ((a mod 4) * 16 + b div 16) #
     b64_char ((b mod 16) * 4 + c div 64) # b64_char (c mod 64) # base64_encode bs"
| "base64_encode [a, b] =
     [b64_char (a div 4), b64_char ((a mod 4) * 16 + b div 16), b64_char ((b mod 16) * 4), 0x3D]"
| "base64_encode [a] = [b64_char (a div 4), b64_char ((a mod 4) * 16), 0x3D, 0x3D]"
| "base64_encode [] = []"

text \<open>
  \<^verbatim>\<open>btoa(s)\<close> throws \<^verbatim>\<open>InvalidCharacterError\<close> when \<open>s\<close> has a code unit above
  \<open>0xFF\<close>; otherwise each code unit is one byte.
\<close>

definition btoa :: "jsstring \<Rightarrow> error + jsstring" where
  "btoa s =
     (if \<exists>c \<in> set s. 0xFF < c then Inl InvalidCharacterError
      else Inr (base64_encode (map unat s)))"

text \<open>
  \<^verbatim>\<open>atob\<close> is the forgiving-base64 decode of the HTML standard: ASCII whitespace is
  removed; when the length is a multiple of four, one or two trailing \<open>=\<close> are removed;
  a length of 1 modulo 4 or a character outside the alphabet is a failure; the remaining
  characters are decoded six bits at a time, the bits left over at the end discarded.
\<close>

definition ascii_whitespace :: "code_unit \<Rightarrow> bool" where
  "ascii_whitespace c \<longleftrightarrow> c = 0x09 \<or> c = 0x0A \<or> c = 0x0C \<or> c = 0x0D \<or> c = 0x20"

definition strip_padding :: "jsstring \<Rightarrow> jsstring" where
  "strip_padding d =
     (case rev d of
        [] \<Rightarrow> d
      | e1 # r1 \<Rightarrow>
          if e1 = 0x3D then
            (case r1 of
               [] \<Rightarrow> []
             | e2 # r2 \<Rightarrow> if e2 = 0x3D then rev r2 else rev r1)
          else d)"

fun decode_sextets :: "nat list \<Rightarrow> nat list" where
  "decode_sextets (a # b # c # d # r) =
     (a * 4 + b div 16) # ((b mod 16) * 16 + c div 4) # ((c mod 4) * 64 + d) # decode_sextets r"
| "decode_sextets [a, b, c] = [a * 4 + b div 16, (b mod 16) * 16 + c div 4]"
| "decode_sextets [a, b] = [a * 4 + b div 16]"
| "decode_sextets [a] = []"
| "decode_sextets [] = []"

definition forgiving_base64_decode :: "jsstring \<Rightarrow> jsstring option" where
  "forgiving_base64_decode data =
     (let d1 = filter (\<lambda>c. \<not> ascii_whitespace c) data;
          d2 = (if length d1 mod 4 = 0 then strip_padding d1 else d1)
      in if length d2 mod 4 = 1 then None
         else (case those (map b64_index d2) of
                 None \<Rightarrow> None
               | Some sx \<Rightarrow> Some (map of_nat (decode_sextets sx))))"

definition atob :: "jsstring \<Rightarrow> error + jsstring" where
  "atob data =
     (case forgiving_base64_decode data of
        None \<Rightarrow> Inl InvalidCharacterError
      | Some s \<Rightarrow> Inr s)"

section \<open>\<^verbatim>\<open>String.prototype.split\<close> and indexing\<close>

text \<open>
  \<^verbatim>\<open>s.split(sep)\<close> with a one-character separator; the empty string splits into one
  empty segment.
\<close>

fun split :: "code_unit \<Rightarrow> jsstring \<Rightarrow> jsstring list" where
  "split sep [] = [[]]"
| "split sep (c # cs) =
     (if c = sep then [] # split sep cs
      else (case split sep cs of
              [] \<Rightarrow> [[c]]
            | x # xs \<Rightarrow> (c # x) # xs))"

text \<open>
  \<^verbatim>\<open>xs[i]\<close> is \<^verbatim>\<open>undefined\<close> (here \<open>None\<close>) past the end of the array, and a
  function that takes a DOMString, as \<^verbatim>\<open>atob\<close> does, converts \<^verbatim>\<open>undefined\<close> to the
  string \<^verbatim>\<open>"undefined"\<close>.
\<close>

fun index :: "'a list \<Rightarrow> nat \<Rightarrow> 'a option" where
  "index [] i = None"
| "index (x # xs) 0 = Some x"
| "index (x # xs) (Suc i) = index xs i"

definition DOMString :: "jsstring option \<Rightarrow> jsstring" where
  "DOMString v = (case v of None \<Rightarrow> ascii ''undefined'' | Some s \<Rightarrow> s)"

section \<open>JSON values\<close>

text \<open>
  The values of JSON. The type of numbers is a parameter: the objects this module
  serialises hold integral time values (\<open>int json\<close>), and a parsed text holds Numbers
  (\<open>number json\<close>). An object is its list of properties in creation order.
\<close>

datatype 'n json =
    JNull
  | JBool bool
  | JNumber 'n
  | JString jsstring
  | JArray "'n json list"
  | JObject "(jsstring \<times> 'n json) list"

text \<open>A JavaScript value read out of a parsed payload: \<^verbatim>\<open>undefined\<close> or a JSON value.\<close>

datatype js = Undefined | Json "number json"

section \<open>\<^verbatim>\<open>JSON.stringify\<close>\<close>

definition hex_digit :: "nat \<Rightarrow> code_unit" where
  "hex_digit n = of_nat (if n < 10 then 48 + n else 87 + n)"

definition unicode_escape :: "code_unit \<Rightarrow> jsstring" where
  "unicode_escape c =
     (let k = unat c in
      [0x5C, 0x75, hex_digit (k div 4096), hex_digit (k div 256 mod 16),
       hex_digit (k div 16 mod 16), hex_digit (k mod 16)])"

definition is_leading_surrogate :: "code_unit \<Rightarrow> bool" where
  "is_leading_surrogate c \<longleftrightarrow> 0xD800 \<le> c \<and> c \<le> 0xDBFF"

definition is_trailing_surrogate :: "code_unit \<Rightarrow> bool" where
  "is_trailing_surrogate c \<longleftrightarrow> 0xDC00 \<le> c \<and> c \<le> 0xDFFF"

text \<open>
  QuoteJSONString: the two-character escapes, \<open>\<backslash>uXXXX\<close> for the other control
  characters and for a surrogate that is not part of a pair, every other code unit as it is.
\<close>

definition quote_code_unit :: "code_unit \<Rightarrow> jsstring" where
  "quote_code_unit c =
     (if c = 0x08 then [0x5C, 0x62]
      else if c = 0x09 then [0x5C, 0x74]
      else if c = 0x0A then [0x5C, 0x6E]
      else if c = 0x0C then [0x5C, 0x66]
      else if c = 0x0D then [0x5C, 0x72]
      else if c = 0x22 then [0x5C, 0x22]
      else if c = 0x5C then [0x5C, 0x5C]
      else if c < 0x20 then unicode_escape c
      else [c])"

fun quote_body :: "jsstring \<Rightarrow> jsstring" where
  "quote_body [] = []"
| "quote_body [c] =
     (if is_leading_surrogate c \<or> is_trailing_surrogate c then unicode_escape c
      else quote_code_unit c)"
| "quote_body (c # d # ds) =
     (if is_leading_surrogate c \<and> is_trailing_surrogate d then c # d # quote_body ds
      else if is_leading_surrogate c \<or> is_trailing_surrogate c
        then unicode_escape c @ quote_body (d # ds)
      else quote_code_unit c @ quote_body (d # ds))"

definition QuoteJSONString :: "jsstring \<Rightarrow> jsstring" where
  "QuoteJSONString s = 0x22 # quote_body s @ [0x22]"

text \<open>
  Number::toString of an integral Number of magnitude below \<open>10\<^sup>2\<^sup>1\<close>, which every
  time value is: the decimal digits, after a minus sign when negative.
\<close>

definition digit_char :: "nat \<Rightarrow> code_unit" where
  "digit_char d = of_nat (48 + d)"

fun digits :: "nat \<Rightarrow> jsstring" where
  "digits n = (if n < 10 then [digit_char n] else digits (n div 10) @ [digit_char (n mod 10)])"

declare digits.simps [simp del]

definition number_to_string :: "int \<Rightarrow> jsstring" where
  "number_to_string i = (if i < 0 then 0x2D # digits (nat (- i)) else digits (nat i))"

text \<open>
  Serialisation without indentation: the elements of an array and the properties of an
  object in order, separated by commas.
\<close>

fun JSON_stringify :: "int json \<Rightarrow> jsstring"
  and stringify_elements :: "int json list \<Rightarrow> jsstring"
  and stringify_members :: "(jsstring \<times> int json) list \<Rightarrow> jsstring" where
  "JSON_stringify JNull = ascii ''null''"
| "JSON_stringify (JBool b) = (if b then ascii ''true'' else ascii ''false'')"
| "JSON_stringify (JNumber n) = number_to_string n"
| "JSON_stringify (JString s) = QuoteJSONString s"
| "JSON_stringify (JArray xs) = 0x5B # stringify_elements xs @ [0x5D]"
| "JSON_stringify (JObject kvs) = 0x7B # stringify_members kvs @ [0x7D]"
| "stringify_elements [] = []"
| "stringify_elements [x] = JSON_stringify x"
| "stringify_elements (x # y # r) = JSON_stringify x @ 0x2C # stringify_elements (y # r)"
| "stringify_members [] = []"
| "stringify_members [(k, v)] = QuoteJSONString k @ 0x3A # JSON_stringify v"
| "stringify_members ((k, v) # kv # r) =
     QuoteJSONString k @ 0x3A # JSON_stringify v @ 0x2C # stringify_members (kv # r)"

section \<open>\<^verbatim>\<open>JSON.parse\<close>\<close>

text \<open>
  A recursive-descent parser for the JSON grammar of ECMA-404, which is what
  \<^verbatim>\<open>JSON.parse\<close> accepts. Every parsing function returns the value read and the rest of
  the input, or \<open>None\<close> for a syntax error.
\<close>

definition json_whitespace :: "code_unit \<Rightarrow> bool" where
  "json_whitespace c \<longleftrightarrow> c = 0x09 \<or> c = 0x0A \<or> c = 0x0D \<or> c = 0x20"

definition skip_ws :: "jsstring \<Rightarrow> jsstring" where
  "skip_ws s = dropWhile json_whitespace s"

definition hex_value :: "code_unit \<Rightarrow> nat option" where
  "hex_value c =
     (let k = unat c in
      if 48 \<le> k \<and> k \<le> 57 then Some (k - 48)
      else if 97 \<le> k \<and> k \<le> 102 then Some (k - 87)
      else if 65 \<le> k \<and> k \<le> 70 then Some (k - 55)
      else None)"

definition hex4 :: "code_unit \<Rightarrow> code_unit \<Rightarrow> code_unit \<Rightarrow> code_unit \<Rightarrow> code_unit option" where
  "hex4 h1 h2 h3 h4 =
     (case (hex_value h1, hex_value h2, hex_value h3, hex_value h4) of
        (Some a, Some b, Some c, Some d) \<Rightarrow> Some (of_nat (a * 4096 + b * 256 + c * 16 + d))
      | _ \<Rightarrow> None)"

definition unescape :: "code_unit \<Rightarrow> code_unit option" where
  "unescape e =
     (if e = 0x22 then Some 0x22
      else if e = 0x5C then Some 0x5C
      else if e = 0x2F then Some 0x2F
      else if e = 0x62 then Some 0x08
      else if e = 0x66 then Some 0x0C
      else if e = 0x6E then Some 0x0A
      else if e = 0x72 then Some 0x0D
      else if e = 0x74 then Some 0x09
      else None)"

definition cons_result :: "code_unit \<Rightarrow> (jsstring \<times> jsstring) option \<Rightarrow> (jsstring \<times> jsstring) option" where
  "cons_result c res = (case res of None \<Rightarrow> None | Some (str, r) \<Rightarrow> Some (c # str, r))"

text \<open>
  The characters of a string after its opening quote, up to the closing quote: a
  control character, an unknown escape and the end of the input are syntax errors.
\<close>

fun parse_chars :: "jsstring \<Rightarrow> (jsstring \<times> jsstring) option" where
  "parse_chars [] = None"
| "parse_chars (c # cs) =
     (if c = 0x22 then Some ([], cs)
      else if c = 0x5C then
        (case cs of
           [] \<Rightarrow> None
         | e # es \<Rightarrow>
             if e = 0x75 then
               (case es of
                  h1 # h2 # h3 # h4 # r \<Rightarrow>
                    (case hex4 h1 h2 h3 h4 of
                       None \<Rightarrow> None
                     | Some u \<Rightarrow> cons_result u (parse_chars r))
                | _ \<Rightarrow> None)
             else
               (case unescape e of
                  None \<Rightarrow> None
                | Some u \<Rightarrow> cons_result u (parse_chars es)))
      else if c < 0x20 then None
      else cons_result c (parse_chars cs))"

text \<open>
  Numbers: an optional minus sign, an integer part without a leading zero, an optional
  fraction, an optional exponent. \<open>parse_unsigned\<close> gives the decimal number written after
  the sign, and \<open>parse_number\<close> the Number it is read as.
\<close>

definition is_digit :: "code_unit \<Rightarrow> bool" where
  "is_digit c \<longleftrightarrow> 0x30 \<le> c \<and> c \<le> 0x39"

definition digits_value :: "jsstring \<Rightarrow> nat" where
  "digits_value ds = foldl (\<lambda>n c. 10 * n + (unat c - 48)) 0 ds"

definition parse_int_part :: "jsstring \<Rightarrow> (nat \<times> jsstring) option" where
  "parse_int_part s =
     (case s of
        [] \<Rightarrow> None
      | c # r \<Rightarrow>
          if c = 0x30 then Some (0, r)
          else if is_digit c then Some (digits_value (takeWhile is_digit s), dropWhile is_digit s)
          else None)"

definition parse_fraction :: "jsstring \<Rightarrow> (rat \<times> jsstring) option" where
  "parse_fraction s =
     (case s of
        [] \<Rightarrow> Some (0, s)
      | c # r \<Rightarrow>
          if c = 0x2E then
            (let ds = takeWhile is_digit r in
             if ds = [] then None
             else Some (of_nat (digits_value ds) / 10 ^ length ds, dropWhile is_digit r))
          else Some (0, s))"

definition parse_exponent_digits :: "jsstring \<Rightarrow> (nat \<times> jsstring) option" where
  "parse_exponent_digits s =
     (let ds = takeWhile is_digit s in
      if ds = [] then None else Some (digits_value ds, dropWhile is_digit s))"

definition parse_exponent :: "jsstring \<Rightarrow> (rat \<times> jsstring) option" where
  "parse_exponent s =
     (case s of
        [] \<Rightarrow> Some (1, s)
      | c # r \<Rightarrow>
          if c = 0x65 \<or> c = 0x45 then
            (case r of
               [] \<Rightarrow> None
             | g # r' \<Rightarrow>
                 if g = 0x2D then
                   (case parse_exponent_digits r' of
                      None \<Rightarrow> None
                    | Some (e, rest) \<Rightarrow> Some (1 / 10 ^ e, rest))
                 else
                   (case parse_exponent_digits (if g = 0x2B then r' else r) of
                      None \<Rightarrow> None
                    | Some (e, rest) \<Rightarrow> Some (10 ^ e, rest)))
          else Some (1, s))"

definition parse_unsigned :: "jsstring \<Rightarrow> (rat \<times> jsstring) option" where
  "parse_unsigned s =
     (case parse_int_part s of
        None \<Rightarrow> None
      | Some (i, s1) \<Rightarrow>
          (case parse_fraction s1 of
             None \<Rightarrow> None
           | Some (f, s2) \<Rightarrow>
               (case parse_exponent s2 of
                  None \<Rightarrow> None
                | Some (e, s3) \<Rightarrow> Some ((of_nat i + f) * e, s3))))"

definition parse_number :: "jsstring \<Rightarrow> (number \<times> jsstring) option" where
  "parse_number s =
     (case s of
        [] \<Rightarrow> None
      | c # r \<Rightarrow>
          if c = 0x2D then
            (case parse_unsigned r of
               None \<Rightarrow> None
             | Some (x, rest) \<Rightarrow> Some (to_Number True x, rest))
          else
            (case parse_unsigned s of
               None \<Rightarrow> None
             | Some (x, rest) \<Rightarrow> Some (to_Number False x, rest)))"

fun strip_prefix :: "jsstring \<Rightarrow> jsstring \<Rightarrow> jsstring option" where
  "strip_prefix [] s = Some s"
| "strip_prefix (p # ps) [] = None"
| "strip_prefix (p # ps) (c # cs) = (if p = c then strip_prefix ps cs else None)"

text \<open>
  \<^verbatim>\<open>JSON.parse\<close> defines the properties of an object in the order of the text; a
  name that occurs again overwrites the value of its first occurrence. (The reordering of
  array-index names is not modelled: nothing here enumerates a parsed object.)
\<close>

fun obj_set :: "jsstring \<Rightarrow> 'n json \<Rightarrow> (jsstring \<times> 'n json) list \<Rightarrow> (jsstring \<times> 'n json) list" where
  "obj_set k v [] = [(k, v)]"
| "obj_set k v ((k', v') # r) = (if k' = k then (k, v) # r else (k', v') # obj_set k v r)"

lemma length_skip_ws: "length (skip_ws s) \<le> length s"
  by (simp add: skip_ws_def length_dropWhile_le)

lemma skip_ws_Cons_length: "skip_ws s = c # cs \<Longrightarrow> length cs < length s"
  using length_skip_ws [of s] by simp

lemma parse_chars_length: "parse_chars s = Some (str, r) \<Longrightarrow> length r < length s"
proof (induction s arbitrary: str r rule: parse_chars.induct)
  case 1
  then show ?case by simp
next
  case (2 c cs)
  show ?case
  proof (cases "c = 0x22")
    case True
    with "2.prems" show ?thesis by simp
  next
    case nq: False
    show ?thesis
    proof (cases "c = 0x5C")
      case True
      with nq "2.prems" "2.IH"(1,2) show ?thesis
        by (fastforce simp: cons_result_def split: if_splits list.splits option.splits)
    next
      case False
      with nq "2.prems" "2.IH"(3) show ?thesis
        by (fastforce simp: cons_result_def split: if_splits list.splits option.splits)
    qed
  qed
qed

text \<open>
  A value, the elements of an array after its opening bracket, and the members of an
  object after its opening brace. The recursion is on the length of the input; a loop
  goes on only when the value just read has consumed input, which it always has
  (\<open>parse_value_length\<close> below).
\<close>

function parse_value :: "jsstring \<Rightarrow> (number json \<times> jsstring) option"
  and parse_elements :: "jsstring \<Rightarrow> number json list \<Rightarrow> (number json \<times> jsstring) option"
  and parse_members ::
    "jsstring \<Rightarrow> (jsstring \<times> number json) list \<Rightarrow> (number json \<times> jsstring) option"
  where
  "parse_value s =
     (case skip_ws s of
        [] \<Rightarrow> None
      | c # cs \<Rightarrow>
          if c = 0x7B then
            (case skip_ws cs of
               [] \<Rightarrow> None
             | d # ds \<Rightarrow> if d = 0x7D then Some (JObject [], ds) else parse_members cs [])
          else if c = 0x5B then
            (case skip_ws cs of
               [] \<Rightarrow> None
             | d # ds \<Rightarrow> if d = 0x5D then Some (JArray [], ds) else parse_elements cs [])
          else if c = 0x22 then
            (case parse_chars cs of
               None \<Rightarrow> None
             | Some (str, r) \<Rightarrow> Some (JString str, r))
          else if c = 0x74 then
            (case strip_prefix (ascii ''rue'') cs of
               None \<Rightarrow> None
             | Some r \<Rightarrow> Some (JBool True, r))
          else if c = 0x66 then
            (case strip_prefix (ascii ''alse'') cs of
               None \<Rightarrow> None
             | Some r \<Rightarrow> Some (JBool False, r))
          else if c = 0x6E then
            (case strip_prefix (ascii ''ull'') cs of
               None \<Rightarrow> None
             | Some r \<Rightarrow> Some (JNull, r))
          else
            (case parse_number (c # cs) of
               None \<Rightarrow> None
             | Some (x, r) \<Rightarrow> Some (JNumber x, r)))"
| "parse_elements s acc =
     (case parse_value s of
        None \<Rightarrow> None
      | Some (v, r) \<Rightarrow>
          if length r < length s then
            (case skip_ws r of
               [] \<Rightarrow> None
             | c # cs \<Rightarrow>
                 if c = 0x2C then parse_elements cs (acc @ [v])
                 else if c = 0x5D then Some (JArray (acc @ [v]), cs)
                 else None)
          else None)"
| "parse_members s acc =
     (case skip_ws s of
        [] \<Rightarrow> None
      | q # cs \<Rightarrow>
          if q = 0x22 then
            (case parse_chars cs of
               None \<Rightarrow> None
             | Some (k, r1) \<Rightarrow>
                 (case skip_ws r1 of
                    [] \<Rightarrow> None
                  | col # r2 \<Rightarrow>
                      if col = 0x3A then
                        (case parse_value r2 of
                           None \<Rightarrow> None
                         | Some (v, r3) \<Rightarrow>
                             if length r3 < length r2 then
                               (case skip_ws r3 of
                                  [] \<Rightarrow> None
                                | c # r4 \<Rightarrow>
                                    if c = 0x2C then parse_members r4 (obj_set k v acc)
                                    else if c = 0x7D then Some (JObject (obj_set k v acc), r4)
                                    else None)
                             else None)
                      else None))
          else None)"
  by pat_completeness auto
termination
proof (relation "measure (\<lambda>x. case x of
          Inl s \<Rightarrow> 2 * length s
        | Inr (Inl (s, acc)) \<Rightarrow> 2 * length s + 1
        | Inr (Inr (s, acc)) \<Rightarrow> 2 * length s + 1)", goal_cases)
  case 1
  then show ?case by simp
next
  case (2 s c cs d ds)
  then show ?case by (auto dest!: skip_ws_Cons_length)
next
  case (3 s c cs d ds)
  then show ?case by (auto dest!: skip_ws_Cons_length)
next
  case (4 s acc)
  then show ?case by simp
next
  case (5 s acc x v r c cs)
  then show ?case by (auto dest!: skip_ws_Cons_length)
next
  case (6 s acc q cs x k r1 col r2)
  then show ?case by (auto dest!: skip_ws_Cons_length parse_chars_length)
next
  case (7 s acc q cs x k r1 col r2 y v r3 c r4)
  then show ?case by (auto dest!: skip_ws_Cons_length parse_chars_length)
qed

declare parse_value.simps [simp del] parse_elements.simps [simp del] parse_members.simps [simp del]

definition JSON_parse :: "jsstring \<Rightarrow> error + number json" where
  "JSON_parse text =
     (case parse_value text of
        None \<Rightarrow> Inl SyntaxError
      | Some (v, r) \<Rightarrow> if skip_ws r = [] then Inr v else Inl SyntaxError)"

section \<open>The module \<^verbatim>\<open>auth.ts\<close>\<close>

subsection \<open>Users\<close>

text \<open>
  The interface \<^verbatim>\<open>User\<close>: five string fields, \<^verbatim>\<open>membershipType\<close> one of three
  literals. A user is serialised as the object of its fields in the order of the
  interface, which is the order of the object literal in \<^verbatim>\<open>login\<close>.
\<close>

datatype membership = Basic | Premium | Elite

record User =
  id' :: jsstring
  email :: jsstring
  name :: jsstring
  membershipType :: membership
  memberSince :: jsstring

definition membership_string :: "membership \<Rightarrow> jsstring" where
  "membership_string m =
     (case m of Basic \<Rightarrow> ascii ''basic'' | Premium \<Rightarrow> ascii ''premium'' | Elite \<Rightarrow> ascii ''elite'')"

definition User_json :: "User \<Rightarrow> 'n json" where
  "User_json u =
     JObject
       [(ascii ''id'', JString (id' u)),
        (ascii ''email'', JString (email u)),
        (ascii ''name'', JString (name u)),
        (ascii ''membershipType'', JString (membership_string (membershipType u))),
        (ascii ''memberSince'', JString (memberSince u))]"

subsection \<open>\<^verbatim>\<open>randomDelay\<close>\<close>

text \<open>
  \<^verbatim>\<open>Math.floor(Math.random() * (max - min + 1)) + min\<close>, the number of milliseconds
  after which the promise resolves. The draw of \<^verbatim>\<open>Math.random()\<close> is the argument
  \<open>r\<close>, and \<open>lo\<close> and \<open>hi\<close> are the Numbers \<^verbatim>\<open>min\<close> and \<^verbatim>\<open>max\<close>. The subtraction, the
  two additions and the multiplication each round to binary64; \<^verbatim>\<open>Math.floor\<close> is exact.
  \<open>None\<close> is a delay that is not finite.
\<close>

definition randomDelay :: "rat \<Rightarrow> rat \<Rightarrow> rat \<Rightarrow> rat option" where
  "randomDelay r lo hi =
     (case round64 (hi - lo) of
        None \<Rightarrow> None
      | Some d \<Rightarrow>
          (case round64 (d + 1) of
             None \<Rightarrow> None
           | Some n \<Rightarrow>
               (case round64 (r * n) of
                  None \<Rightarrow> None
                | Some x \<Rightarrow> round64 (of_int \<lfloor>x\<rfloor> + lo))))"

subsection \<open>\<^verbatim>\<open>generateMockToken\<close>\<close>

text \<open>
  The header and the payload are serialised and encoded; \<open>now\<close> is the value of
  \<^verbatim>\<open>Date.now()\<close>, a time value: an integer of magnitude at most \<open>8.64 \<times> 10\<^sup>1\<^sup>5\<close>, for which
  the sum with 3600000 is exact. An exception of \<^verbatim>\<open>btoa\<close> is not caught.
\<close>

definition time_value :: "int \<Rightarrow> bool" where
  "time_value t \<longleftrightarrow> \<bar>t\<bar> \<le> 8640000000000000"

definition generateMockToken :: "int \<Rightarrow> User \<Rightarrow> error + jsstring" where
  "generateMockToken now u =
     (case btoa (JSON_stringify
             (JObject [(ascii ''alg'', JString (ascii ''HS256'')),
                       (ascii ''typ'', JString (ascii ''JWT''))])) of
        Inl e \<Rightarrow> Inl e
      | Inr header \<Rightarrow>
          (case btoa (JSON_stringify
                  (JObject [(ascii ''user'', User_json u),
                            (ascii ''exp'', JNumber (now + 3600000))])) of
             Inl e \<Rightarrow> Inl e
           | Inr payload \<Rightarrow> Inr (header @ 0x2E # payload @ 0x2E # ascii ''mock-signature'')))"

subsection \<open>\<^verbatim>\<open>login\<close>\<close>

text \<open>
  An \<^verbatim>\<open>async\<close> function is modelled by the delay it awaits and by how its promise
  settles: \<open>Inl\<close> the rejection, \<open>Inr\<close> the value.
\<close>

record login_result =
  token :: jsstring
  user :: User

definition login ::
  "rat \<Rightarrow> int \<Rightarrow> jsstring \<Rightarrow> jsstring \<Rightarrow> rat option \<times> (error + login_result)" where
  "login r now e p =
     (randomDelay r 500 2000,
      if p = ascii ''error'' then Inl (Error ''Invalid credentials'')
      else
        (let u = \<lparr>id' = ascii ''user-123'', email = e, name = ascii ''Jane Doe'',
                   membershipType = Premium, memberSince = ascii ''2024-01-15''\<rparr>
         in case generateMockToken now u of
              Inl err \<Rightarrow> Inl err
            | Inr t \<Rightarrow> Inr \<lparr>token = t, user = u\<rparr>))"

subsection \<open>\<^verbatim>\<open>verifyToken\<close>\<close>

text \<open>
  \<^verbatim>\<open>payload.user\<close>: reading a property of \<^verbatim>\<open>null\<close> throws a \<^verbatim>\<open>TypeError\<close>; an
  object has the property or the read is \<^verbatim>\<open>undefined\<close>; a boolean, a number, a string
  and an array have no property \<^verbatim>\<open>user\<close>.
\<close>

definition property_user :: "number json \<Rightarrow> error + js" where
  "property_user payload =
     (case payload of
        JNull \<Rightarrow> Inl TypeError
      | JObject kvs \<Rightarrow>
          (case map_of kvs (ascii ''user'') of None \<Rightarrow> Inr Undefined | Some v \<Rightarrow> Inr (Json v))
      | _ \<Rightarrow> Inr Undefined)"

text \<open>
  The body of the \<^verbatim>\<open>try\<close> block, the same in \<^verbatim>\<open>verifyToken\<close> and
  \<^verbatim>\<open>getCurrentUser\<close>:
  \<^verbatim>\<open>const payload = JSON.parse(atob(token.split('.')[1])); return payload.user;\<close>
\<close>

definition payload_user :: "jsstring \<Rightarrow> error + js" where
  "payload_user t =
     (case atob (DOMString (index (split 0x2E t) 1)) of
        Inl e \<Rightarrow> Inl e
      | Inr text \<Rightarrow>
          (case JSON_parse text of
             Inl e \<Rightarrow> Inl e
           | Inr payload \<Rightarrow> property_user payload))"

definition verifyToken :: "rat \<Rightarrow> jsstring \<Rightarrow> rat option \<times> (error + js)" where
  "verifyToken r t =
     (randomDelay r 100 500,
      case payload_user t of
        Inl e \<Rightarrow> Inl (Error ''Invalid token'')
      | Inr v \<Rightarrow> Inr v)"

subsection \<open>\<^verbatim>\<open>logout\<close>, \<^verbatim>\<open>getCurrentUser\<close>, \<^verbatim>\<open>isAuthenticated\<close>\<close>

text \<open>
  The state outside the module is the global \<^verbatim>\<open>localStorage\<close>. In an environment
  without web storage the global is not defined, and \<^verbatim>\<open>typeof localStorage\<close> is
  \<^verbatim>\<open>'undefined'\<close>. In a browser that denies the document access to storage (an opaque
  origin, storage blocked by the user) the global is defined and its getter throws a
  \<^verbatim>\<open>SecurityError\<close>, also under \<^verbatim>\<open>typeof\<close>. Otherwise it is a storage, a map from keys
  to strings.
\<close>

datatype storage_global = NotDefined | AccessDenied | Storage "jsstring \<rightharpoonup> jsstring"

record world =
  localStorage :: storage_global

definition logout :: "world \<Rightarrow> world" where
  "logout w = w"

text \<open>
  The test \<^verbatim>\<open>typeof localStorage === 'undefined'\<close> and the call of \<^verbatim>\<open>getItem\<close> stand
  before the \<^verbatim>\<open>try\<close> block, so an exception of the getter leaves the function.
  \<^verbatim>\<open>getItem\<close> returns \<^verbatim>\<open>null\<close> for a key that is not stored, and \<^verbatim>\<open>!token\<close> holds
  for \<^verbatim>\<open>null\<close> and for the empty string. The result is \<open>Inl\<close> when the call throws.
\<close>

definition getCurrentUser :: "world \<Rightarrow> error + js" where
  "getCurrentUser w =
     (case localStorage w of
        NotDefined \<Rightarrow> Inr (Json JNull)
      | AccessDenied \<Rightarrow> Inl SecurityError
      | Storage storage \<Rightarrow>
          (case storage (ascii ''auth_token'') of
             None \<Rightarrow> Inr (Json JNull)
           | Some t \<Rightarrow>
               if t = [] then Inr (Json JNull)
               else
                 (case payload_user t of
                    Inl e \<Rightarrow> Inr (Json JNull)
                  | Inr v \<Rightarrow> Inr v)))"

definition isAuthenticated :: "world \<Rightarrow> error + bool" where
  "isAuthenticated w =
     (case getCurrentUser w of
        Inl e \<Rightarrow> Inl e
      | Inr v \<Rightarrow> Inr (v \<noteq> Json JNull))"

subsection \<open>Notions the properties are stated with\<close>

text \<open>
  A value is a complete \<^verbatim>\<open>User\<close> when it is an object whose properties \<^verbatim>\<open>id\<close>,
  \<^verbatim>\<open>email\<close>, \<^verbatim>\<open>name\<close> and \<^verbatim>\<open>memberSince\<close> are strings and whose property
  \<^verbatim>\<open>membershipType\<close> is one of the three literals of the interface.
\<close>

definition string_member :: "(jsstring \<times> number json) list \<Rightarrow> jsstring \<Rightarrow> bool" where
  "string_member kvs k = (case map_of kvs k of Some (JString s) \<Rightarrow> True | _ \<Rightarrow> False)"

definition is_User :: "js \<Rightarrow> bool" where
  "is_User v =
     (case v of
        Json (JObject kvs) \<Rightarrow>
          string_member kvs (ascii ''id'') \<and> string_member kvs (ascii ''email'')
          \<and> string_member kvs (ascii ''name'') \<and> string_member kvs (ascii ''memberSince'')
          \<and> (map_of kvs (ascii ''membershipType'') = Some (JString (ascii ''basic''))
               \<or> map_of kvs (ascii ''membershipType'') = Some (JString (ascii ''premium''))
               \<or> map_of kvs (ascii ''membershipType'') = Some (JString (ascii ''elite'')))
      | _ \<Rightarrow> False)"

text \<open>A JSON value has a \<^verbatim>\<open>user\<close> field when it is an object with a property of that name.\<close>

definition has_user_field :: "number json \<Rightarrow> bool" where
  "has_user_field j =
     (case j of JObject kvs \<Rightarrow> ascii ''user'' \<in> fst ` set kvs | _ \<Rightarrow> False)"

text \<open>
  A character ends a number when it cannot continue one: it is no digit, no decimal
  point and no exponent mark.
\<close>

definition ends_number :: "code_unit \<Rightarrow> bool" where
  "ends_number c \<longleftrightarrow> \<not> is_digit c \<and> c \<noteq> 0x2E \<and> c \<noteq> 0x65 \<and> c \<noteq> 0x45"

text \<open>A string is Latin-1 when \<^verbatim>\<open>btoa\<close> accepts it: no code unit above \<open>0xFF\<close>.\<close>

definition latin1 :: "jsstring \<Rightarrow> bool" where
  "latin1 s \<longleftrightarrow> list_all (\<lambda>c. c \<le> 0xFF) s"

section \<open>Rounding to binary64\<close>

text \<open>
  Integers of magnitude up to \<open>2\<^sup>5\<^sup>3\<close> are binary64 values, and the rounded product of a
  draw below one with a count \<open>n\<close> stays below \<open>n\<close>.
\<close>

lemma pow2_below_ge2: "2 \<le> a \<Longrightarrow> pow2_below a = 2 * pow2_below (a / 2)"
  by (subst pow2_below.simps) simp

lemma pow2_below_lt1: "0 < a \<Longrightarrow> a < 1 \<Longrightarrow> pow2_below a = pow2_below (2 * a) / 2"
  by (subst pow2_below.simps) simp

lemma pow2_below_unit: "1 \<le> a \<Longrightarrow> a < 2 \<Longrightarrow> pow2_below a = 1"
  by (subst pow2_below.simps) simp

lemma floor_rat_numeral: "\<lfloor>numeral a / numeral b :: rat\<rfloor> = numeral a div numeral b"
  using floor_divide_of_int_eq [of "numeral a" "numeral b", where ?'a = rat] by simp

lemmas number_eval = round64_def nearest64_def quantum_def pow2_below_ge2 pow2_below_lt1 pow2_below_unit
  round_half_even_def Let_def floor_rat_numeral

lemma pow2_below_bounds:
  "0 < a \<Longrightarrow> 0 < pow2_below a \<and> pow2_below a \<le> a \<and> a < 2 * pow2_below a"
proof (induction a rule: pow2_below.induct)
  case (1 a)
  consider "2 \<le> a" | "a < 1" | "1 \<le> a" "a < 2" by linarith
  then show ?case
  proof cases
    case 1
    with "1.prems" "1.IH"(1) have "0 < pow2_below (a / 2) \<and> pow2_below (a / 2) \<le> a / 2
        \<and> a / 2 < 2 * pow2_below (a / 2)" by simp
    with 1 show ?thesis by (simp add: pow2_below_ge2)
  next
    case 2
    with "1.prems" "1.IH"(2) have "0 < pow2_below (2 * a) \<and> pow2_below (2 * a) \<le> 2 * a
        \<and> 2 * a < 2 * pow2_below (2 * a)" by simp
    with 2 "1.prems" show ?thesis by (simp add: pow2_below_lt1)
  next
    case 3
    then show ?thesis by (simp add: pow2_below_unit)
  qed
qed

lemma pow2_below_power: "1 \<le> a \<Longrightarrow> \<exists>k. pow2_below a = 2 ^ k"
proof (induction a rule: pow2_below.induct)
  case (1 a)
  show ?case
  proof (cases "2 \<le> a")
    case True
    with "1.IH"(1) obtain k where "pow2_below (a / 2) = 2 ^ k" by auto
    with True have "pow2_below a = 2 ^ Suc k" by (simp add: pow2_below_ge2)
    then show ?thesis by blast
  next
    case False
    with "1.prems" have "pow2_below a = 2 ^ 0" by (simp add: pow2_below_unit)
    then show ?thesis by blast
  qed
qed

lemma round_half_even_of_int: "round_half_even (of_int m) = m"
  by (simp add: round_half_even_def)

lemma round_half_even_error:
  "\<bar>of_int (round_half_even y) - y\<bar> \<le> 1 / 2"
proof -
  have "of_int \<lfloor>y\<rfloor> \<le> y" "y < of_int \<lfloor>y\<rfloor> + 1" by linarith+
  then show ?thesis by (auto simp: round_half_even_def Let_def)
qed

lemma round_half_even_nonneg: "0 \<le> y \<Longrightarrow> 0 \<le> round_half_even y"
  by (auto simp: round_half_even_def Let_def)

lemma quantum_pos: "0 < a \<Longrightarrow> 0 < quantum a"
  using pow2_below_bounds [of a] by (simp add: quantum_def max_def)

lemma quantum_le: "0 < a \<Longrightarrow> quantum a \<le> max (a / 2 ^ 52) (1 / 2 ^ 1074)"
proof -
  assume "0 < a"
  then have "pow2_below a \<le> a" using pow2_below_bounds [of a] by simp
  then have "max (pow2_below a) (1 / 2 ^ 1022) / 2 ^ 52 \<le> max a (1 / 2 ^ 1022) / 2 ^ 52"
    by (intro divide_right_mono max.mono) simp_all
  also have "\<dots> = max (a / 2 ^ 52) (1 / 2 ^ 1022 / 2 ^ 52)" by (simp add: max_def divide_right_mono)
  finally show ?thesis by (simp add: quantum_def)
qed


lemma round64_exact:
  assumes "x \<noteq> 0" and "\<bar>x\<bar> / quantum \<bar>x\<bar> = of_int m" and "\<bar>x\<bar> < 2 ^ 1024"
  shows "round64 x = Some x"
proof -
  have q: "0 < quantum \<bar>x\<bar>" using assms(1) by (simp add: quantum_pos)
  have r: "round_half_even (\<bar>x\<bar> / quantum \<bar>x\<bar>) = m"
    by (simp only: assms(2) round_half_even_of_int)
  have "\<bar>x\<bar> = of_int m * quantum \<bar>x\<bar>"
    using assms(2) q by (simp add: field_simps)
  then have "of_int (round_half_even (\<bar>x\<bar> / quantum \<bar>x\<bar>)) * quantum \<bar>x\<bar> = \<bar>x\<bar>"
    by (simp only: r)
  then show ?thesis
    using assms(3) by (simp add: round64_def nearest64_def Let_def assms(1) mult_sgn_abs)
qed

lemma div_pow2_quot: "k \<le> n \<Longrightarrow> (a::rat) / (2 ^ k / 2 ^ n) = a * 2 ^ (n - k)"
proof -
  assume "k \<le> n"
  then have "(2::rat) ^ n = 2 ^ k * 2 ^ (n - k)" by (simp flip: power_add)
  then show ?thesis by simp
qed

lemma round64_of_int:
  assumes "\<bar>i\<bar> \<le> 2 ^ 53"
  shows "round64 (of_int i) = Some (of_int i)"
proof (cases "i = 0")
  case True
  then show ?thesis by (simp add: round64_def)
next
  case False
  define a :: rat where "a = \<bar>of_int i\<bar>"
  have a1: "1 \<le> a" using False by (simp add: a_def flip: of_int_abs)
  have a53: "a \<le> 2 ^ 53"
    using assms by (simp add: a_def flip: of_int_abs)
  obtain k where k: "pow2_below a = 2 ^ k" using pow2_below_power [OF a1] by blast
  have "pow2_below a \<le> a" using pow2_below_bounds [of a] a1 by simp
  then have "(2::rat) ^ k \<le> 2 ^ 53" using k a53 by simp
  then have k53: "k \<le> 53" by (rule power_le_imp_le_exp [rotated]) simp
  have "(1::rat) / 2 ^ 1022 \<le> 1" by simp
  also have "(1::rat) \<le> 2 ^ k" by simp
  finally have "max ((2::rat) ^ k) (1 / 2 ^ 1022) = 2 ^ k" by (rule max_absorb1)
  then have q: "quantum a = 2 ^ k / 2 ^ 52" by (simp only: quantum_def k)
  have "\<exists>m. a / quantum a = of_int m"
  proof (cases "k \<le> 52")
    case True
    then have "a / quantum a = a * 2 ^ (52 - k)" by (simp only: q div_pow2_quot)
    also have "\<dots> = of_int (\<bar>i\<bar> * 2 ^ (52 - k))" by (simp add: a_def)
    finally show ?thesis by blast
  next
    case False
    with k53 have k: "k = 53" by simp
    from \<open>pow2_below a \<le> a\<close> a53 have "a = 2 ^ 53" by (simp add: \<open>pow2_below a = 2 ^ k\<close> k)
    then have a': "a = 2 ^ 53" .
    have "a / quantum a = a / (2 ^ 53 / 2 ^ 52)" by (simp only: q k)
    also have "\<dots> = of_int (2 ^ 52)" unfolding a' by simp
    finally show ?thesis by blast
  qed
  then obtain m where m: "\<bar>of_int i :: rat\<bar> / quantum \<bar>of_int i\<bar> = of_int m"
    by (auto simp: a_def)
  have "(2::rat) ^ 53 < 2 ^ 1024" by simp
  then have "\<bar>of_int i :: rat\<bar> < 2 ^ 1024" using a53 unfolding a_def by linarith
  moreover have "(of_int i :: rat) \<noteq> 0" using False by simp
  ultimately show ?thesis using m by (intro round64_exact)
qed


lemma abs_scale:
  fixes x a q :: rat
  assumes "0 < q"
  shows "\<bar>x - a / q\<bar> * q = \<bar>x * q - a\<bar>"
proof -
  have "x * q - a = (x - a / q) * q" using assms by (simp add: left_diff_distrib)
  then have "\<bar>x * q - a\<bar> = \<bar>x - a / q\<bar> * \<bar>q\<bar>" by (simp only: abs_mult)
  then show ?thesis using assms by simp
qed

lemma round64_pos_value:
  assumes "0 < a"
  shows "\<exists>m. 0 \<le> m \<and> \<bar>of_int m * quantum a - a\<bar> \<le> quantum a / 2
           \<and> round64 a = (if 2 ^ 1024 \<le> of_int m * quantum a then None
                           else Some (of_int m * quantum a))"
proof -
  let ?q = "quantum a"
  let ?m = "round_half_even (a / ?q)"
  have q: "0 < ?q" using assms by (rule quantum_pos)
  have m0: "0 \<le> ?m" using assms q by (intro round_half_even_nonneg) simp
  have "\<bar>of_int ?m - a / ?q\<bar> * ?q \<le> 1 / 2 * ?q"
    using round_half_even_error [of "a / ?q"] q by (intro mult_right_mono) simp_all
  moreover have "\<bar>of_int ?m - a / ?q\<bar> * ?q = \<bar>of_int ?m * ?q - a\<bar>"
    using q by (rule abs_scale)
  ultimately have err: "\<bar>of_int ?m * ?q - a\<bar> \<le> ?q / 2" by simp
  have "round64 a = (if 2 ^ 1024 \<le> of_int ?m * ?q then None else Some (of_int ?m * ?q))"
    using assms by (simp add: round64_def nearest64_def Let_def)
  with m0 err show ?thesis by blast
qed

lemma round64_product:
  assumes "0 \<le> r" and "r \<le> 1 - 1 / 2 ^ 53" and "1 \<le> n" and "n < 2 ^ 1024"
  shows "\<exists>x. round64 (r * n) = Some x \<and> 0 \<le> x \<and> x < n"
proof (cases "r = 0")
  case True
  with assms(3) show ?thesis by (simp add: round64_def)
next
  case False
  with assms(1,3) have a: "0 < r * n" by simp
  let ?a = "r * n"
  let ?q = "quantum ?a"
  obtain m where m0: "0 \<le> m" and err: "\<bar>of_int m * ?q - ?a\<bar> \<le> ?q / 2"
    and val: "round64 ?a = (if 2 ^ 1024 \<le> of_int m * ?q then None else Some (of_int m * ?q))"
    using round64_pos_value [OF a] by blast
  let ?v = "of_int m * ?q"
  have q: "0 < ?q" using a by (rule quantum_pos)
  have v0: "0 \<le> ?v" using m0 q by simp
  have up: "?v \<le> ?a + ?q / 2" using err by linarith
  have an: "?a \<le> n * (1 - 1 / 2 ^ 53)"
    using assms(2,3) by (simp add: mult.commute mult_left_mono)
  have "?v < n"
  proof (cases "?q \<le> ?a / 2 ^ 52")
    case True
    then have "?v \<le> ?a * (1 + 1 / 2 ^ 53)" using up by (simp add: field_simps)
    also have "\<dots> \<le> n * (1 - 1 / 2 ^ 53) * (1 + 1 / 2 ^ 53)"
      using an by (intro mult_right_mono) simp_all
    also have "\<dots> = n * ((1 - 1 / 2 ^ 53) * (1 + 1 / 2 ^ 53))" by simp
    also have "\<dots> < n * 1" using assms(3) by (intro mult_strict_left_mono) simp_all
    finally show ?thesis by simp
  next
    case False
    with quantum_le [OF a] have "?q \<le> 1 / 2 ^ 1074" by (simp add: max_def split: if_splits)
    then have "?v \<le> ?a + 1 / 2 ^ 1075" using up by simp
    also have "\<dots> \<le> n * (1 - 1 / 2 ^ 53) + 1 / 2 ^ 1075" using an by simp
    also have "\<dots> = n - (n * (1 / 2 ^ 53) - 1 / 2 ^ 1075)" by (simp add: right_diff_distrib)
    also have "\<dots> < n"
    proof -
      have "(1::rat) / 2 ^ 1075 < 1 * (1 / 2 ^ 53)" by simp
      also have "\<dots> \<le> n * (1 / 2 ^ 53)" using assms(3) by (intro mult_right_mono) simp_all
      finally show ?thesis by simp
    qed
    finally show ?thesis .
  qed
  then have "\<not> 2 ^ 1024 \<le> ?v" using assms(4) by linarith
  with val have "round64 ?a = Some ?v" by (simp only: if_False)
  with v0 \<open>?v < n\<close> show ?thesis by blast
qed

lemma draw_below_one:
  assumes "round64 r = Some r" and "0 \<le> r" and "r < 1"
  shows "r \<le> 1 - 1 / 2 ^ 53"
proof (cases "r < 1 / 2")
  case True
  then show ?thesis by simp
next
  case False
  then have r: "1 / 2 \<le> r" "0 < r" by simp_all
  have "pow2_below (2 * r) = 1" using r assms(3) by (intro pow2_below_unit) simp_all
  then have "pow2_below r = 1 / 2" using r assms(3) by (simp add: pow2_below_lt1)
  then have q: "quantum r = 1 / 2 ^ 53" by (simp add: quantum_def)
  obtain m where val: "round64 r = (if 2 ^ 1024 \<le> of_int m * quantum r then None
                                   else Some (of_int m * quantum r))"
    using round64_pos_value [OF r(2)] by blast
  with assms(1) have rm: "r = of_int m / 2 ^ 53" by (simp add: q split: if_splits)
  with assms(3) have "(of_int m :: rat) < of_int (2 ^ 53)" by simp
  then have "m < 2 ^ 53" by (simp only: of_int_less_iff)
  then have "m \<le> 2 ^ 53 - 1" by simp
  then have "(of_int m :: rat) \<le> of_int (2 ^ 53 - 1)" by (simp only: of_int_le_iff)
  then show ?thesis by (simp add: rm field_simps)
qed

text \<open>
  Rounding is monotone, and between two binary64 values it stays between them.
\<close>

lemma round_half_even_mono: "y \<le> y' \<Longrightarrow> round_half_even y \<le> round_half_even y'"
proof (rule ccontr)
  assume le: "y \<le> y'" and "\<not> round_half_even y \<le> round_half_even y'"
  then have gt: "round_half_even y' + 1 \<le> round_half_even y" by simp
  have e1: "\<bar>of_int (round_half_even y) - y\<bar> \<le> 1 / 2" by (rule round_half_even_error)
  have e2: "\<bar>of_int (round_half_even y') - y'\<bar> \<le> 1 / 2" by (rule round_half_even_error)
  from gt have "(of_int (round_half_even y' + 1) :: rat) \<le> of_int (round_half_even y)"
    by (simp only: of_int_le_iff)
  then have g: "(of_int (round_half_even y') :: rat) + 1 \<le> of_int (round_half_even y)" by simp
  from e1 e2 g le have "y = y'" by linarith
  with gt show False by simp
qed

lemma round_half_even_floor:
  "\<lfloor>y\<rfloor> \<le> round_half_even y \<and> round_half_even y \<le> \<lfloor>y\<rfloor> + 1"
  by (simp add: round_half_even_def Let_def)

lemma round_half_even_small:
  assumes "0 \<le> e" and "e < 1 / 2"
  shows "round_half_even (of_int m + e) = m"
proof -
  have "\<lfloor>of_int m + e\<rfloor> = m" using assms by (simp add: floor_eq_iff)
  then show ?thesis using assms by (simp add: round_half_even_def Let_def)
qed

lemma round_half_even_half:
  "round_half_even (of_int m + 1 / 2) = (if even m then m else m + 1)"
proof -
  have "\<lfloor>of_int m + 1 / 2 :: rat\<rfloor> = m" by (simp add: floor_eq_iff)
  then show ?thesis by (simp add: round_half_even_def Let_def)
qed

lemma round_half_even_up_half:
  assumes "round_half_even (of_int n / 2) = \<lfloor>of_int n / 2 :: rat\<rfloor> + 1"
  shows "even (round_half_even (of_int n / 2))"
proof (cases "even n")
  case True
  then obtain c where "n = 2 * c" by (elim evenE)
  then have "(of_int n / 2 :: rat) = of_int c" by simp
  with assms show ?thesis by (simp add: round_half_even_of_int)
next
  case False
  then obtain c where "n = 2 * c + 1" by (elim oddE)
  then have eq: "(of_int n / 2 :: rat) = of_int c + 1 / 2" by (simp add: field_simps)
  have fl: "\<lfloor>of_int n / 2 :: rat\<rfloor> = c" unfolding eq by (simp add: floor_eq_iff)
  have v: "round_half_even (of_int n / 2) = (if even c then c else c + 1)"
    unfolding eq by (rule round_half_even_half)
  from assms have "round_half_even (of_int n / 2) = c + 1" by (simp only: fl)
  with v have "odd c" by (simp split: if_splits)
  then show ?thesis by (simp only: v if_False) simp
qed

lemma quantum_binade:
  assumes "pow2_below a = 2 ^ k"
  shows "quantum a = 2 ^ k / 2 ^ 52"
proof -
  have "(1::rat) / 2 ^ 1022 \<le> 1" by simp
  also have "(1::rat) \<le> 2 ^ k" by simp
  finally have "max ((2::rat) ^ k) (1 / 2 ^ 1022) = 2 ^ k" by (rule max_absorb1)
  then show ?thesis by (simp only: quantum_def assms)
qed

lemma pow2_below_eq: "2 ^ k \<le> a \<Longrightarrow> a < 2 * 2 ^ k \<Longrightarrow> pow2_below a = 2 ^ k"
proof (induction k arbitrary: a)
  case 0
  then show ?case by (simp add: pow2_below_unit)
next
  case (Suc k)
  have "(2::rat) \<le> 2 * 2 ^ k" by simp
  also have "\<dots> \<le> a" using Suc.prems(1) by simp
  finally have a2: "2 \<le> a" .
  have "pow2_below (a / 2) = 2 ^ k" using Suc.prems by (intro Suc.IH) simp_all
  with a2 show ?case by (simp add: pow2_below_ge2)
qed

lemma binade:
  assumes "1 \<le> a"
  obtains k where "pow2_below a = 2 ^ k" and "2 ^ k \<le> a" and "a < 2 * 2 ^ k"
proof -
  obtain k where k: "pow2_below a = 2 ^ k" using pow2_below_power [OF assms] by blast
  have "0 < a" using assms by simp
  then have "pow2_below a \<le> a" "a < 2 * pow2_below a" using pow2_below_bounds [of a] by simp_all
  then show ?thesis using that k by simp
qed

lemma nearest64_binade:
  assumes "2 ^ k \<le> a" and "a < 2 * 2 ^ k"
  shows "\<exists>m. nearest64 a = of_int m * (2 ^ k / 2 ^ 52)
           \<and> m = round_half_even (a / (2 ^ k / 2 ^ 52)) \<and> 2 ^ 52 \<le> m \<and> m \<le> 2 ^ 53"
proof -
  let ?q = "(2::rat) ^ k / 2 ^ 52"
  let ?m = "round_half_even (a / ?q)"
  have q: "quantum a = ?q" using pow2_below_eq [OF assms] by (rule quantum_binade)
  have q0: "0 < ?q" by simp
  have "of_int (2 ^ 52) * ?q \<le> a" using assms(1) by simp
  then have "of_int (2 ^ 52) \<le> a / ?q" using q0 by (simp only: le_divide_eq if_True)
  then have "round_half_even (of_int (2 ^ 52)) \<le> ?m" by (rule round_half_even_mono)
  then have lo: "2 ^ 52 \<le> ?m" by (simp only: round_half_even_of_int)
  have "a \<le> of_int (2 ^ 53) * ?q" using assms(2) by simp
  then have "a / ?q \<le> of_int (2 ^ 53)" using q0 by (simp only: divide_le_eq if_True)
  then have "?m \<le> round_half_even (of_int (2 ^ 53))" by (rule round_half_even_mono)
  then have hi: "?m \<le> 2 ^ 53" by (simp only: round_half_even_of_int)
  have "nearest64 a = of_int ?m * ?q" by (simp only: nearest64_def q)
  with lo hi show ?thesis by blast
qed

lemma nearest64_binade_bounds:
  assumes "2 ^ k \<le> a" and "a < 2 * 2 ^ k"
  shows "2 ^ k \<le> nearest64 a" and "nearest64 a \<le> 2 * 2 ^ k"
proof -
  let ?q = "(2::rat) ^ k / 2 ^ 52"
  obtain m where v: "nearest64 a = of_int m * ?q" and m: "2 ^ 52 \<le> m" "m \<le> 2 ^ 53"
    using nearest64_binade [OF assms] by blast
  have q0: "0 \<le> ?q" by simp
  from m(1) have "(of_int (2 ^ 52) :: rat) \<le> of_int m" by (simp only: of_int_le_iff)
  then have "of_int (2 ^ 52) * ?q \<le> of_int m * ?q" using q0 by (rule mult_right_mono)
  then show "2 ^ k \<le> nearest64 a" by (simp add: v)
  from m(2) have "(of_int m :: rat) \<le> of_int (2 ^ 53)" by (simp only: of_int_le_iff)
  then have "of_int m * ?q \<le> of_int (2 ^ 53) * ?q" using q0 by (rule mult_right_mono)
  then show "nearest64 a \<le> 2 * 2 ^ k" by (simp add: v)
qed

lemma nearest64_mono:
  assumes "1 \<le> a" and "a \<le> b"
  shows "nearest64 a \<le> nearest64 b"
proof -
  obtain i where i: "2 ^ i \<le> a" "a < 2 * 2 ^ i" using binade [OF assms(1)] by blast
  have "1 \<le> b" using assms by simp
  then obtain j where j: "2 ^ j \<le> b" "b < 2 * 2 ^ j" using binade by blast
  have "(2::rat) ^ i < 2 ^ Suc j" using i(1) j(2) assms(2) by simp
  then have "i < Suc j" by (rule power_less_imp_less_exp [rotated]) simp
  then consider "i = j" | "Suc i \<le> j" by linarith
  then show ?thesis
  proof cases
    case 1
    let ?q = "(2::rat) ^ j / 2 ^ 52"
    have q0: "0 < ?q" by simp
    obtain m where m: "nearest64 a = of_int m * ?q" "m = round_half_even (a / ?q)"
      using nearest64_binade [OF i] unfolding 1 by blast
    obtain m' where m': "nearest64 b = of_int m' * ?q" "m' = round_half_even (b / ?q)"
      using nearest64_binade [OF j] by blast
    have "a / ?q \<le> b / ?q" using assms(2) q0 by (simp only: divide_le_cancel) simp
    then have "m \<le> m'" unfolding m(2) m'(2) by (rule round_half_even_mono)
    then have "(of_int m :: rat) \<le> of_int m'" by (simp only: of_int_le_iff)
    then have "of_int m * ?q \<le> of_int m' * ?q" using q0 by (intro mult_right_mono) simp_all
    then show ?thesis by (simp only: m(1) m'(1))
  next
    case 2
    have "nearest64 a \<le> 2 ^ Suc i" using nearest64_binade_bounds(2) [OF i] by simp
    also have "(2::rat) ^ Suc i \<le> 2 ^ j" using 2 by (intro power_increasing) simp_all
    also have "\<dots> \<le> nearest64 b" using nearest64_binade_bounds(1) [OF j] .
    finally show ?thesis .
  qed
qed

lemma nearest64_error:
  assumes "0 < a"
  shows "\<bar>nearest64 a - a\<bar> \<le> quantum a / 2"
proof -
  let ?q = "quantum a"
  let ?m = "round_half_even (a / ?q)"
  have q: "0 < ?q" using assms by (rule quantum_pos)
  have "\<bar>of_int ?m - a / ?q\<bar> * ?q \<le> 1 / 2 * ?q"
    using round_half_even_error [of "a / ?q"] q by (intro mult_right_mono) simp_all
  moreover have "\<bar>of_int ?m - a / ?q\<bar> * ?q = \<bar>of_int ?m * ?q - a\<bar>"
    using q by (rule abs_scale)
  ultimately show ?thesis by (simp add: nearest64_def)
qed

lemma nearest64_nonneg: "0 < a \<Longrightarrow> 0 \<le> nearest64 a"
  using quantum_pos [of a] round_half_even_nonneg [of "a / quantum a"]
  by (simp add: nearest64_def)

lemma nearest64_below_one:
  assumes "0 < a" and "a < 1"
  shows "nearest64 a < 2"
proof -
  have "quantum a \<le> max (a / 2 ^ 52) (1 / 2 ^ 1074)" using assms(1) by (rule quantum_le)
  also have "\<dots> \<le> 1"
  proof -
    have "a / 2 ^ 52 \<le> a" using assms(1) by (simp add: field_simps)
    then have "a / 2 ^ 52 \<le> 1" using assms(2) by linarith
    moreover have "(1::rat) / 2 ^ 1074 \<le> 1" by simp
    ultimately show ?thesis by (simp only: max.bounded_iff)
  qed
  finally have "quantum a \<le> 1" .
  with nearest64_error [OF assms(1)] assms(2) show ?thesis by linarith
qed

lemma round64_positive:
  "0 < a \<Longrightarrow> round64 a = (if 2 ^ 1024 \<le> nearest64 a then None else Some (nearest64 a))"
  by (simp add: round64_def Let_def)

lemma representable:
  assumes "round64 x = Some x" and "0 < x"
  shows "nearest64 x = x" and "x < 2 ^ 1024"
  using assms by (simp_all add: round64_positive split: if_splits)

lemma round64_below:
  assumes "1 \<le> a" and "a \<le> h" and "round64 h = Some h"
  shows "round64 a = Some (nearest64 a)" and "nearest64 a \<le> h"
proof -
  have h: "0 < h" using assms(1,2) by simp
  have "nearest64 a \<le> nearest64 h" using assms(1,2) by (rule nearest64_mono)
  then show le: "nearest64 a \<le> h" by (simp only: representable(1) [OF assms(3) h])
  with representable(2) [OF assms(3) h] have "\<not> 2 ^ 1024 \<le> nearest64 a" by simp
  moreover have "0 < a" using assms(1) by simp
  ultimately show "round64 a = Some (nearest64 a)" by (simp only: round64_positive if_False)
qed

lemma round64_above:
  assumes "1 \<le> l" and "l \<le> a" and "round64 l = Some l"
  shows "l \<le> nearest64 a"
proof -
  have l: "0 < l" using assms(1) by simp
  have "nearest64 l \<le> nearest64 a" using assms(1,2) by (rule nearest64_mono)
  then show ?thesis by (simp only: representable(1) [OF assms(3) l])
qed

lemma pow2_quot: "52 \<le> k \<Longrightarrow> (2::rat) ^ k / 2 ^ 52 = 2 ^ (k - 52)"
proof -
  assume "52 \<le> k"
  then have "(2::rat) ^ k = 2 ^ ((k - 52) + 52)" by simp
  then have eq: "(2::rat) ^ k = 2 ^ (k - 52) * 2 ^ 52" by (simp only: power_add)
  have ne: "(2::rat) ^ 52 \<noteq> 0" by simp
  show ?thesis unfolding eq using ne by (rule nonzero_mult_div_cancel_right)
qed

lemma nearest64_large_int:
  assumes "2 ^ 53 \<le> y"
  shows "\<exists>d. nearest64 (of_int y) = of_int d"
proof -
  have y53: "(2::rat) ^ 53 \<le> of_int y"
  proof -
    have "(of_int (2 ^ 53) :: rat) \<le> of_int y" using assms by (simp only: of_int_le_iff)
    then show ?thesis by simp
  qed
  then have "(1::rat) \<le> of_int y" by simp
  then obtain k where k: "2 ^ k \<le> (of_int y :: rat)" "(of_int y :: rat) < 2 * 2 ^ k"
    using binade by blast
  have "(2::rat) ^ 53 < 2 ^ Suc k" using y53 k(2) by simp
  then have "53 < Suc k" by (rule power_less_imp_less_exp [rotated]) simp
  then have k52: "52 \<le> k" by simp
  obtain m where "nearest64 (of_int y) = of_int m * (2 ^ k / 2 ^ 52)"
    using nearest64_binade [OF k] by blast
  then have "nearest64 (of_int y) = of_int m * 2 ^ (k - 52)"
    by (simp only: pow2_quot [OF k52])
  also have "\<dots> = of_int (m * 2 ^ (k - 52))" by simp
  finally show ?thesis by blast
qed

lemma round64_int_between:
  assumes "0 \<le> lo" and "lo \<le> y" and "y \<le> hi"
    and "round64 (of_int lo) = Some (of_int lo)" and "round64 (of_int hi) = Some (of_int hi)"
  shows "\<exists>d. round64 (of_int y) = Some (of_int d) \<and> lo \<le> d \<and> d \<le> hi"
proof (cases "y \<le> 2 ^ 53")
  case True
  with assms(1,2) have "\<bar>y\<bar> \<le> 2 ^ 53" by simp
  then have "round64 (of_int y) = Some (of_int y)" by (rule round64_of_int)
  with assms(2,3) show ?thesis by blast
next
  case False
  then have y: "2 ^ 53 \<le> y" by simp
  then obtain d where d: "nearest64 (of_int y) = of_int d" using nearest64_large_int by blast
  have y1: "(1::rat) \<le> of_int y" using y by simp
  have yh: "(of_int y :: rat) \<le> of_int hi" using assms(3) by (simp only: of_int_le_iff)
  have r: "round64 (of_int y) = Some (of_int d)" and "(of_int d :: rat) \<le> of_int hi"
    using round64_below [OF y1 yh assms(5)] by (simp_all only: d)
  then have dh: "d \<le> hi" by (simp only: of_int_le_iff)
  have "lo \<le> d"
  proof (cases "lo = 0")
    case True
    have "(0::rat) \<le> of_int d" using nearest64_nonneg [of "of_int y"] y1 by (simp add: d)
    then have "0 \<le> d" by (simp only: of_int_0_le_iff)
    with True show ?thesis by simp
  next
    case False
    with assms(1) have l1: "(1::rat) \<le> of_int lo" by simp
    have ly: "(of_int lo :: rat) \<le> of_int y" using assms(2) by (simp only: of_int_le_iff)
    have "(of_int lo :: rat) \<le> of_int d" using round64_above [OF l1 ly assms(4)] by (simp only: d)
    then show ?thesis by (simp only: of_int_le_iff)
  qed
  with r dh show ?thesis by blast
qed

text \<open>
  The spacing of the binary64 values from \<open>2\<^sup>5\<^sup>3\<close> on is two or more. There the difference
  \<open>max - min\<close>, and that difference plus one, may round up, but the rounded product with a
  draw below one stays at or below the exact difference.
\<close>

lemma nearest64_grid:
  assumes "1 \<le> a" and "2 ^ k \<le> nearest64 a"
  shows "\<exists>j. nearest64 a = of_int j * (2 ^ k / 2 ^ 52)"
proof -
  obtain i where i: "2 ^ i \<le> a" "a < 2 * 2 ^ i" using binade [OF assms(1)] by blast
  obtain m where m: "nearest64 a = of_int m * (2 ^ i / 2 ^ 52)"
    using nearest64_binade [OF i] by blast
  have up: "nearest64 a \<le> 2 ^ Suc i" using nearest64_binade_bounds(2) [OF i] by simp
  show ?thesis
  proof (cases "k \<le> i")
    case True
    then have "(2::rat) ^ i = 2 ^ ((i - k) + k)" by simp
    then have "(2::rat) ^ i = 2 ^ (i - k) * 2 ^ k" by (simp only: power_add)
    then have "nearest64 a = of_int m * (2 ^ (i - k) * 2 ^ k / 2 ^ 52)" by (simp only: m)
    also have "\<dots> = of_int (m * 2 ^ (i - k)) * (2 ^ k / 2 ^ 52)" by simp
    finally show ?thesis by blast
  next
    case False
    have "(2::rat) ^ k \<le> 2 ^ Suc i" using assms(2) up by linarith
    then have "k \<le> Suc i" by (rule power_le_imp_le_exp [rotated]) simp
    with False have k: "k = Suc i" by simp
    from assms(2) up have "nearest64 a = 2 ^ k" unfolding k by linarith
    also have "\<dots> = of_int (2 ^ 52) * (2 ^ k / 2 ^ 52)" by simp
    finally show ?thesis by blast
  qed
qed

lemma successor_rounding:
  fixes q :: rat
  assumes q: "q = 2 ^ k / 2 ^ 52" and k: "53 \<le> k" and m: "2 ^ 52 \<le> m" "m \<le> 2 ^ 53"
  shows "\<exists>m'. nearest64 (of_int m * q + 1) = of_int m' * q
           \<and> (m' = m \<or> (q = 2 \<and> odd m \<and> m' = m + 1))"
proof -
  have k52: "52 \<le> k" using k by simp
  have qp: "q = 2 ^ (k - 52)" unfolding q by (rule pow2_quot [OF k52])
  have "(2::rat) ^ 1 \<le> 2 ^ (k - 52)" using k by (intro power_increasing) simp_all
  then have q2: "2 \<le> q" by (simp add: qp)
  have q0: "0 < q" using q2 by simp
  have pk: "(2::rat) ^ k = of_int (2 ^ 52) * q" by (simp add: q)
  have m52: "(of_int (2 ^ 52) :: rat) \<le> of_int m" using m(1) by (simp only: of_int_le_iff)
  have D_lo: "2 ^ k \<le> of_int m * q"
    unfolding pk using m52 q0 by (intro mult_right_mono) simp_all
  have frac: "(of_int m * q + 1) / q = of_int m + 1 / q"
    using q0 by (simp add: add_divide_distrib)
  show ?thesis
  proof (cases "m = 2 ^ 53")
    case False
    with m(2) have "m + 1 \<le> 2 ^ 53" by simp
    then have "(of_int (m + 1) :: rat) \<le> of_int (2 ^ 53)" by (simp only: of_int_le_iff)
    then have "of_int (m + 1) * q \<le> of_int (2 ^ 53) * q"
      using q0 by (intro mult_right_mono) simp_all
    moreover have "of_int (2 ^ 53) * q = 2 * 2 ^ k" by (simp add: q)
    moreover have "of_int (m + 1) * q = of_int m * q + q" by (simp add: distrib_right)
    ultimately have "of_int m * q + q \<le> 2 * 2 ^ k" by simp
    then have hi: "of_int m * q + 1 < 2 * 2 ^ k" using q2 by linarith
    have lo: "2 ^ k \<le> of_int m * q + 1" using D_lo by linarith
    obtain m' where v: "nearest64 (of_int m * q + 1) = of_int m' * q"
      and m': "m' = round_half_even ((of_int m * q + 1) / q)"
      using nearest64_binade [OF lo hi] unfolding q [symmetric] by blast
    have "m' = m \<or> (q = 2 \<and> odd m \<and> m' = m + 1)"
    proof (cases "q = 2")
      case True
      have "m' = round_half_even (of_int m + 1 / q)" unfolding m' frac ..
      then have "m' = round_half_even (of_int m + 1 / 2)" unfolding True .
      then have "m' = (if even m then m else m + 1)" by (simp only: round_half_even_half)
      then show ?thesis using True by (cases "even m") simp_all
    next
      case False
      have "k - 52 \<noteq> 1" using False qp by auto
      with k have "2 \<le> k - 52" by simp
      then have "(2::rat) ^ 2 \<le> 2 ^ (k - 52)" by (intro power_increasing) simp_all
      then have "4 \<le> q" by (simp add: qp)
      then have "1 / q \<le> 1 / 4" using q0 by (simp add: field_simps)
      then have "1 / q < 1 / 2" by simp
      moreover have "0 \<le> 1 / q" using q0 by simp
      ultimately have "round_half_even (of_int m + 1 / q) = m" by (intro round_half_even_small)
      then have "m' = m" unfolding m' frac .
      then show ?thesis by simp
    qed
    with v show ?thesis by blast
  next
    case True
    have D: "of_int m * q = 2 ^ Suc k" unfolding True by (simp add: q)
    have lo: "2 ^ Suc k \<le> of_int m * q + 1" unfolding D by simp
    have "(1::rat) < 2 ^ Suc k" by (rule one_less_power) simp_all
    then have hi: "of_int m * q + 1 < 2 * 2 ^ Suc k" unfolding D by linarith
    obtain m'' where v: "nearest64 (of_int m * q + 1) = of_int m'' * (2 ^ Suc k / 2 ^ 52)"
      and m'': "m'' = round_half_even ((of_int m * q + 1) / (2 ^ Suc k / 2 ^ 52))"
      using nearest64_binade [OF lo hi] by blast
    have q': "(2::rat) ^ Suc k / 2 ^ 52 = 2 * q" by (simp add: q)
    have fr: "(of_int m * q + 1) / (2 * q) = of_int (2 ^ 52) + 1 / (2 * q)"
      unfolding True using q0 by (simp add: add_divide_distrib)
    have "1 / (2 * q) \<le> 1 / 4" using q2 by (simp add: field_simps)
    then have "1 / (2 * q) < 1 / 2" by simp
    moreover have "0 \<le> 1 / (2 * q)" using q0 by simp
    ultimately have "round_half_even (of_int (2 ^ 52) + 1 / (2 * q)) = 2 ^ 52"
      by (intro round_half_even_small)
    then have m2: "m'' = 2 ^ 52" unfolding m'' q' fr .
    have "nearest64 (of_int m * q + 1) = of_int (2 ^ 52) * (2 * q)" by (simp only: v q' m2)
    also have "\<dots> = of_int m * q" unfolding True by simp
    finally show ?thesis by blast
  qed
qed

lemma product_below_difference:
  fixes n :: int
  assumes n: "2 ^ 53 \<le> n" and h: "of_int n \<le> h" "round64 h = Some h"
    and r: "0 \<le> r" "r \<le> 1 - 1 / 2 ^ 53"
  shows "\<exists>D N X. round64 (of_int n) = Some D \<and> round64 (D + 1) = Some N
           \<and> round64 (r * N) = Some X \<and> 0 \<le> X \<and> X \<le> of_int n"
proof -
  let ?a = "of_int n :: rat"
  have "(of_int (2 ^ 53) :: rat) \<le> ?a" using n by (simp only: of_int_le_iff)
  then have a53: "2 ^ 53 \<le> ?a" by simp
  then have a1: "1 \<le> ?a" by simp
  obtain k where k: "2 ^ k \<le> ?a" "?a < 2 * 2 ^ k" using binade [OF a1] by blast
  have "(2::rat) ^ 53 < 2 ^ Suc k" using a53 k(2) by simp
  then have "53 < Suc k" by (rule power_less_imp_less_exp [rotated]) simp
  then have k53: "53 \<le> k" by simp
  define q :: rat where "q = 2 ^ k / 2 ^ 52"
  have qp: "q = 2 ^ (k - 52)" unfolding q_def using k53 by (intro pow2_quot) simp
  have "(2::rat) ^ 1 \<le> 2 ^ (k - 52)" using k53 by (intro power_increasing) simp_all
  then have q2: "2 \<le> q" by (simp add: qp)
  have q0: "0 < q" using q2 by simp
  obtain m where D: "nearest64 ?a = of_int m * q" and mdef: "m = round_half_even (?a / q)"
    and m: "2 ^ 52 \<le> m" "m \<le> 2 ^ 53"
    using nearest64_binade [OF k] unfolding q_def by blast
  have s1: "round64 ?a = Some (of_int m * q)" and Dh: "of_int m * q \<le> h"
    using round64_below [OF a1 h] unfolding D by simp_all
  have h0: "0 < h" using a1 h(1) by simp
  have hrep: "h < 2 ^ 1024" using representable(2) [OF h(2) h0] .
  obtain m' where N: "nearest64 (of_int m * q + 1) = of_int m' * q"
    and m': "m' = m \<or> (q = 2 \<and> odd m \<and> m' = m + 1)"
    using successor_rounding [OF q_def k53 m] by blast
  have mm': "m \<le> m'" using m' by auto
  have "(1::rat) \<le> of_int m'" using m(1) mm' by simp
  then have "1 * 1 \<le> of_int m' * q" using q2 by (intro mult_mono) simp_all
  then have Npos: "1 \<le> of_int m' * q" by simp
  have Nlt: "of_int m' * q < 2 ^ 1024"
  proof (cases "m' = m")
    case True
    then show ?thesis using Dh hrep by simp
  next
    case False
    with m' have q: "q = 2" and v: "m' = m + 1" by simp_all
    have "m' \<le> 2 ^ 53 + 1" using m(2) v by simp
    then have "(of_int m' :: rat) \<le> of_int (2 ^ 53 + 1)" by (simp only: of_int_le_iff)
    then have "of_int m' * 2 \<le> (of_int (2 ^ 53 + 1) :: rat) * 2" by simp
    moreover have "(of_int (2 ^ 53 + 1) :: rat) * 2 < 2 ^ 1024" by simp
    ultimately show ?thesis unfolding q by linarith
  qed
  have D1: "0 < of_int m * q + 1" using m(1) q0 by (simp add: add_pos_nonneg)
  have s2: "round64 (of_int m * q + 1) = Some (of_int m' * q)"
    using Nlt by (simp add: round64_positive [OF D1] N)
  obtain X where s3: "round64 (r * (of_int m' * q)) = Some X" and X: "0 \<le> X" "X < of_int m' * q"
    using round64_product [OF r Npos Nlt] by blast
  have "X \<le> ?a"
  proof (rule ccontr)
    assume "\<not> X \<le> ?a"
    then have gt: "?a < X" by simp
    let ?b = "r * (of_int m' * q)"
    have "0 \<noteq> ?b"
    proof
      assume "0 = ?b"
      then have "round64 ?b = Some 0" by (simp add: round64_def)
      with s3 have "X = 0" by simp
      with gt a1 show False by simp
    qed
    moreover have "0 \<le> ?b" using r(1) Npos by simp
    ultimately have b0: "0 < ?b" by (intro le_neq_trans)
    have Xv: "X = nearest64 ?b" using s3 by (simp add: round64_positive [OF b0] split: if_splits)
    have b1: "1 \<le> ?b"
    proof (rule ccontr)
      assume "\<not> 1 \<le> ?b"
      then have "nearest64 ?b < 2" using b0 by (intro nearest64_below_one) simp_all
      with gt a53 Xv show False by simp
    qed
    have "2 ^ k \<le> nearest64 ?b" using k(1) gt unfolding Xv by linarith
    then obtain j where j: "nearest64 ?b = of_int j * q"
      using nearest64_grid [OF b1] unfolding q_def by blast
    have "of_int j * q < of_int m' * q" using X(2) unfolding Xv j .
    then have "(of_int j :: rat) < of_int m'" using q0 by (simp only: mult_less_cancel_right_pos)
    then have jm: "j < m'" by (simp only: of_int_less_iff)
    have "?a < of_int j * q" using gt unfolding Xv j .
    then have "?a / q < of_int j" using q0 by (simp only: divide_less_eq if_True)
    then have fj: "\<lfloor>?a / q\<rfloor> < j" by (simp only: floor_less_iff)
    have "m' \<le> \<lfloor>?a / q\<rfloor> + 1"
    proof (cases "m' = m")
      case True
      then show ?thesis using round_half_even_floor [of "?a / q"] unfolding mdef by simp
    next
      case False
      with m' have q: "q = 2" and odd: "odd m" and v: "m' = m + 1" by simp_all
      have "m \<noteq> \<lfloor>?a / 2\<rfloor> + 1"
      proof
        assume "m = \<lfloor>?a / 2\<rfloor> + 1"
        then have "round_half_even (?a / 2) = \<lfloor>?a / 2\<rfloor> + 1" using mdef q by simp
        then have "even (round_half_even (?a / 2))" by (rule round_half_even_up_half)
        with odd mdef q show False by simp
      qed
      moreover have "m \<le> \<lfloor>?a / 2\<rfloor> + 1"
        using round_half_even_floor [of "?a / 2"] mdef q by simp
      ultimately show ?thesis unfolding v q by simp
    qed
    with jm fj show False by simp
  qed
  with s1 s2 s3 X(1) show ?thesis by blast
qed

section \<open>The delay is within its bounds\<close>

lemma randomDelay_safe_integers:
  assumes "0 \<le> lo" and "lo \<le> hi" and "hi < 2 ^ 53"
    and "round64 r = Some r" and "0 \<le> r" and "r < 1"
  shows "\<exists>x. round64 (r * of_int (hi - lo + 1)) = Some x
           \<and> randomDelay r (of_int lo) (of_int hi) = Some (of_int (\<lfloor>x\<rfloor> + lo))"
proof -
  let ?n = "hi - lo + 1"
  have s1: "round64 (of_int hi - of_int lo) = Some (of_int (hi - lo))"
    using assms(1-3) by (simp only: of_int_diff [symmetric]) (rule round64_of_int, simp)
  have s2: "round64 (of_int (hi - lo) + 1) = Some (of_int ?n)"
    using assms(1-3) round64_of_int [of ?n] by simp
  have "r \<le> 1 - 1 / 2 ^ 53" using assms(4-6) by (rule draw_below_one)
  moreover have "(1::rat) \<le> of_int ?n" using assms(2) by simp
  moreover have "(of_int ?n :: rat) < 2 ^ 1024"
  proof -
    have "?n \<le> 2 ^ 53" using assms(1,3) by simp
    then have "(of_int ?n :: rat) \<le> of_int (2 ^ 53)" by (simp only: of_int_le_iff)
    moreover have "(2::rat) ^ 53 < 2 ^ 1024" by simp
    ultimately show ?thesis by simp
  qed
  ultimately obtain x where s3: "round64 (r * of_int ?n) = Some x" and x: "0 \<le> x" "x < of_int ?n"
    using round64_product [OF assms(5), of "of_int ?n"] by auto
  have f0: "0 \<le> \<lfloor>x\<rfloor>" using x(1) by simp
  have f1: "\<lfloor>x\<rfloor> < ?n" using x(2) by (simp only: floor_less_iff)
  have s4: "round64 (of_int \<lfloor>x\<rfloor> + of_int lo) = Some (of_int (\<lfloor>x\<rfloor> + lo))"
    using f0 f1 assms(1-3) round64_of_int [of "\<lfloor>x\<rfloor> + lo"] by simp
  have "randomDelay r (of_int lo) (of_int hi) = Some (of_int (\<lfloor>x\<rfloor> + lo))"
    by (simp only: randomDelay_def s1 s2 s3 s4 option.case)
  with s3 show ?thesis by blast
qed

lemma randomDelay_integers:
  assumes "0 \<le> lo" and "lo \<le> hi"
    and rl: "round64 (of_int lo) = Some (of_int lo)"
    and rh: "round64 (of_int hi) = Some (of_int hi)"
    and rr: "round64 r = Some r" and r0: "0 \<le> r" and r1: "r < 1"
  shows "\<exists>d. randomDelay r (of_int lo) (of_int hi) = Some (of_int d) \<and> lo \<le> d \<and> d \<le> hi"
proof -
  let ?n = "hi - lo"
  have r': "r \<le> 1 - 1 / 2 ^ 53" using rr r0 r1 by (rule draw_below_one)
  have "\<exists>D N X. round64 (of_int ?n) = Some D \<and> round64 (D + 1) = Some N
           \<and> round64 (r * N) = Some X \<and> 0 \<le> X \<and> \<lfloor>X\<rfloor> \<le> ?n"
  proof (cases "?n < 2 ^ 53")
    case True
    have s1: "round64 (of_int ?n) = Some (of_int ?n)"
      using True assms(2) by (intro round64_of_int) simp
    have "round64 (of_int (?n + 1)) = Some (of_int (?n + 1))"
      using True assms(2) by (intro round64_of_int) simp
    then have s2: "round64 (of_int ?n + 1) = Some (of_int (?n + 1))" by simp
    have n1: "(1::rat) \<le> of_int (?n + 1)" using assms(2) by simp
    have "?n + 1 \<le> 2 ^ 53" using True by simp
    then have "(of_int (?n + 1) :: rat) \<le> of_int (2 ^ 53)" by (simp only: of_int_le_iff)
    moreover have "(of_int (2 ^ 53) :: rat) < 2 ^ 1024" by simp
    ultimately have n2: "(of_int (?n + 1) :: rat) < 2 ^ 1024" by linarith
    obtain X where s3: "round64 (r * of_int (?n + 1)) = Some X" and X: "0 \<le> X" "X < of_int (?n + 1)"
      using round64_product [OF r0 r' n1 n2] by blast
    have "\<lfloor>X\<rfloor> < ?n + 1" using X(2) by (simp only: floor_less_iff)
    then have "\<lfloor>X\<rfloor> \<le> ?n" by simp
    with s1 s2 s3 X(1) show ?thesis by blast
  next
    case False
    then have n: "2 ^ 53 \<le> ?n" by simp
    have "?n \<le> hi" using assms(1) by simp
    then have nh: "(of_int ?n :: rat) \<le> of_int hi" by (simp only: of_int_le_iff)
    obtain D N X where s: "round64 (of_int ?n) = Some D" "round64 (D + 1) = Some N"
      "round64 (r * N) = Some X" "0 \<le> X" and X: "X \<le> of_int ?n"
      using product_below_difference [OF n nh rh r0 r'] by blast
    have "\<lfloor>X\<rfloor> \<le> \<lfloor>of_int ?n :: rat\<rfloor>" using X by (rule floor_mono)
    then have "\<lfloor>X\<rfloor> \<le> ?n" by simp
    with s show ?thesis by blast
  qed
  then obtain D N X where s1: "round64 (of_int ?n) = Some D" and s2: "round64 (D + 1) = Some N"
    and s3: "round64 (r * N) = Some X" and X0: "0 \<le> X" and Xn: "\<lfloor>X\<rfloor> \<le> ?n"
    by blast
  have f0: "0 \<le> \<lfloor>X\<rfloor>" using X0 by simp
  have "lo \<le> \<lfloor>X\<rfloor> + lo" "\<lfloor>X\<rfloor> + lo \<le> hi" using f0 Xn by simp_all
  then obtain d where s4: "round64 (of_int (\<lfloor>X\<rfloor> + lo)) = Some (of_int d)"
    and d: "lo \<le> d" "d \<le> hi"
    using round64_int_between [OF assms(1) _ _ rl rh] by blast
  have s1': "round64 (of_int hi - of_int lo) = Some D" using s1 by simp
  have s4': "round64 (of_int \<lfloor>X\<rfloor> + of_int lo) = Some (of_int d)" using s4 by simp
  have "randomDelay r (of_int lo) (of_int hi) = Some (of_int d)"
    by (simp only: randomDelay_def s1' s2 s3 s4' option.case)
  with d show ?thesis by blast
qed

section \<open>The parser consumes its input\<close>

lemma strip_prefix_length: "strip_prefix p s = Some r \<Longrightarrow> length r \<le> length s"
  by (induction p s rule: strip_prefix.induct) (auto split: if_splits)

lemma parse_int_part_length: "parse_int_part s = Some (i, r) \<Longrightarrow> length r < length s"
  using length_dropWhile_le [of is_digit "tl s"]
  by (auto simp: parse_int_part_def split: list.splits if_splits)

lemma parse_fraction_length: "parse_fraction s = Some (f, r) \<Longrightarrow> length r \<le> length s"
  using length_dropWhile_le [of is_digit "tl s"]
  by (auto simp: parse_fraction_def Let_def split: list.splits if_splits)

lemma parse_exponent_digits_length:
  "parse_exponent_digits s = Some (e, r) \<Longrightarrow> length r \<le> length s"
  using length_dropWhile_le [of is_digit s]
  by (auto simp: parse_exponent_digits_def Let_def split: if_splits)

lemma parse_exponent_length: "parse_exponent s = Some (e, r) \<Longrightarrow> length r \<le> length s"
  by (auto simp: parse_exponent_def split: list.splits if_splits option.splits
           dest!: parse_exponent_digits_length)

lemma parse_unsigned_length: "parse_unsigned s = Some (x, r) \<Longrightarrow> length r < length s"
  by (auto simp: parse_unsigned_def split: option.splits
           dest!: parse_int_part_length parse_fraction_length parse_exponent_length)

lemma parse_number_length: "parse_number s = Some (x, r) \<Longrightarrow> length r < length s"
  by (auto simp: parse_number_def split: list.splits if_splits option.splits
           dest!: parse_unsigned_length)


lemma parse_value_length:
  "parse_value s = Some (v, r) \<Longrightarrow> length r < length s"
  "parse_elements s acc1 = Some (v, r) \<Longrightarrow> length r < length s"
  "parse_members s acc2 = Some (v, r) \<Longrightarrow> length r < length s"
proof (induction s and s acc1 and s acc2 arbitrary: v r and v r and v r
       rule: parse_value_parse_elements_parse_members.induct)
  case (1 s)
  from "1.prems" obtain c cs where sk: "skip_ws s = c # cs"
    by (subst (asm) parse_value.simps) (auto split: list.splits)
  then have lcs: "length cs < length s" by (rule skip_ws_Cons_length)
  from sk have lsk: "length (c # cs) \<le> length s" using length_skip_ws [of s] by simp
  show ?case
  proof (cases "c = 0x7B")
    case True
    from "1.prems" sk True obtain d ds where sk2: "skip_ws cs = d # ds"
      and res: "(if d = 0x7D then Some (JObject [], ds) else parse_members cs []) = Some (v, r)"
      by (subst (asm) parse_value.simps) (auto split: list.splits)
    show ?thesis
    proof (cases "d = 0x7D")
      case True
      with res sk2 lcs skip_ws_Cons_length [OF sk2] show ?thesis by simp
    next
      case False
      with res have "parse_members cs [] = Some (v, r)" by simp
      from "1.IH"(1) [OF sk True sk2 False this] lcs show ?thesis by simp
    qed
  next
    case nobj: False
    show ?thesis
    proof (cases "c = 0x5B")
      case True
      from "1.prems" sk nobj True obtain d ds where sk2: "skip_ws cs = d # ds"
        and res: "(if d = 0x5D then Some (JArray [], ds) else parse_elements cs []) = Some (v, r)"
        by (subst (asm) parse_value.simps) (auto split: list.splits)
      show ?thesis
      proof (cases "d = 0x5D")
        case True
        with res sk2 lcs skip_ws_Cons_length [OF sk2] show ?thesis by simp
      next
        case False
        with res have "parse_elements cs [] = Some (v, r)" by simp
        from "1.IH"(2) [OF sk nobj True sk2 False this] lcs show ?thesis by simp
      qed
    next
      case False
      with "1.prems" sk nobj lcs lsk show ?thesis
        by (subst (asm) parse_value.simps)
           (auto split: if_splits option.splits
                 dest!: parse_chars_length strip_prefix_length parse_number_length)
    qed
  qed
next
  case (2 s acc)
  from "2.prems" obtain v' r' where pv: "parse_value s = Some (v', r')"
    and guard: "length r' < length s"
    by (subst (asm) parse_elements.simps) (auto split: option.splits if_splits)
  from "2.prems" pv guard obtain c cs where sk: "skip_ws r' = c # cs"
    by (subst (asm) parse_elements.simps) (auto split: list.splits)
  from sk have lcs: "length cs < length r'" by (rule skip_ws_Cons_length)
  show ?case
  proof (cases "c = 0x2C")
    case True
    with "2.prems" pv guard sk have "parse_elements cs (acc @ [v']) = Some (v, r)"
      by (subst (asm) parse_elements.simps) simp
    from "2.IH"(2) [OF pv refl guard sk True this] lcs guard show ?thesis by simp
  next
    case False
    with "2.prems" pv guard sk lcs show ?thesis
      by (subst (asm) parse_elements.simps) (auto split: if_splits)
  qed
next
  case (3 s acc)
  from "3.prems" obtain q cs where sk: "skip_ws s = q # cs" and q: "q = 0x22"
    by (subst (asm) parse_members.simps) (auto split: list.splits if_splits)
  from "3.prems" sk q obtain k r1 where pc: "parse_chars cs = Some (k, r1)"
    by (subst (asm) parse_members.simps) (auto split: option.splits)
  from "3.prems" sk q pc obtain col r2 where sk1: "skip_ws r1 = col # r2" and col: "col = 0x3A"
    by (subst (asm) parse_members.simps) (auto split: list.splits if_splits)
  from "3.prems" sk q pc sk1 col obtain v' r3 where pv: "parse_value r2 = Some (v', r3)"
    and guard: "length r3 < length r2"
    by (subst (asm) parse_members.simps) (auto split: option.splits if_splits)
  from "3.prems" sk q pc sk1 col pv guard obtain c r4 where sk3: "skip_ws r3 = c # r4"
    by (subst (asm) parse_members.simps) (auto split: list.splits)
  have len: "length r4 < length s"
    using skip_ws_Cons_length [OF sk] parse_chars_length [OF pc] skip_ws_Cons_length [OF sk1]
      guard skip_ws_Cons_length [OF sk3] by simp
  show ?case
  proof (cases "c = 0x2C")
    case True
    with "3.prems" sk q pc sk1 col pv guard sk3
    have "parse_members r4 (obj_set k v' acc) = Some (v, r)"
      by (subst (asm) parse_members.simps) simp
    from "3.IH"(2) [OF sk q pc refl sk1 col pv refl guard sk3 True this] len
    show ?thesis by simp
  next
    case False
    with "3.prems" sk q pc sk1 col pv guard sk3 len show ?thesis
      by (subst (asm) parse_members.simps) (auto split: if_splits)
  qed
qed

text \<open>So the two loops never stop for want of progress: the test on the lengths is always true.\<close>

lemma parse_elements_unguarded:
  "parse_elements s acc =
     (case parse_value s of
        None \<Rightarrow> None
      | Some (v, r) \<Rightarrow>
          (case skip_ws r of
             [] \<Rightarrow> None
           | c # cs \<Rightarrow>
               if c = 0x2C then parse_elements cs (acc @ [v])
               else if c = 0x5D then Some (JArray (acc @ [v]), cs)
               else None))"
  by (subst parse_elements.simps) (auto split: option.splits dest: parse_value_length(1))

lemma parse_members_unguarded:
  "parse_members s acc =
     (case skip_ws s of
        [] \<Rightarrow> None
      | q # cs \<Rightarrow>
          if q = 0x22 then
            (case parse_chars cs of
               None \<Rightarrow> None
             | Some (k, r1) \<Rightarrow>
                 (case skip_ws r1 of
                    [] \<Rightarrow> None
                  | col # r2 \<Rightarrow>
                      if col = 0x3A then
                        (case parse_value r2 of
                           None \<Rightarrow> None
                         | Some (v, r3) \<Rightarrow>
                             (case skip_ws r3 of
                                [] \<Rightarrow> None
                              | c # r4 \<Rightarrow>
                                  if c = 0x2C then parse_members r4 (obj_set k v acc)
                                  else if c = 0x7D then Some (JObject (obj_set k v acc), r4)
                                  else None))
                      else None))
          else None)"
  by (subst parse_members.simps)
     (auto split: option.splits list.splits dest: parse_value_length(1))

section \<open>Evaluation on concrete inputs\<close>

lemmas base64_eval = atob_def forgiving_base64_decode_def ascii_whitespace_def strip_padding_def
  b64_index_def DOMString_def ascii_def

lemmas json_eval = JSON_parse_def parse_value.simps parse_elements.simps parse_members.simps
  skip_ws_def json_whitespace_def parse_number_def parse_unsigned_def parse_int_part_def
  parse_fraction_def parse_exponent_def parse_exponent_digits_def is_digit_def digits_value_def
  cons_result_def hex4_def hex_value_def unescape_def to_Number_def number_eval

lemmas stringify_eval = QuoteJSONString_def quote_code_unit_def is_leading_surrogate_def
  is_trailing_surrogate_def unicode_escape_def hex_digit_def User_json_def membership_string_def
  ascii_def

text \<open>
  \<^verbatim>\<open>JSON.parse\<close> reads a numeral as the nearest binary64 value, a tie going to the even
  significand, and it keeps the sign of a zero.
\<close>

lemma JSON_parse_nearest:
  "JSON_parse (ascii ''9007199254740993'') = Inr (JNumber (Finite 9007199254740992))"
  by (simp add: json_eval ascii_def)

lemma JSON_parse_negative_zero: "JSON_parse (ascii ''-0'') = Inr (JNumber NegativeZero)"
  by (simp add: json_eval ascii_def)

section \<open>Tokens without a payload segment\<close>

lemma split_nonempty: "split sep s \<noteq> []"
  by (induction s) (auto split: list.splits)

lemma index_short: "length xs < 2 \<Longrightarrow> index xs 1 = None"
  by (cases xs; cases "tl xs") auto

lemma DOMString_Some: "DOMString (Some s) = s"
  by (simp add: DOMString_def)

text \<open>\<^verbatim>\<open>atob(undefined)\<close> decodes the nine characters of \<^verbatim>\<open>"undefined"\<close>, and throws.\<close>

lemma atob_undefined: "atob (DOMString None) = Inl InvalidCharacterError"
  by (simp add: base64_eval)

lemma payload_user_no_segment:
  "index (split 0x2E t) 1 = None \<Longrightarrow> payload_user t = Inl InvalidCharacterError"
  by (simp add: payload_user_def atob_undefined)




lemma property_user_lacking:
  "j \<noteq> JNull \<Longrightarrow> \<not> has_user_field j \<Longrightarrow> property_user j = Inr Undefined"
  by (cases j)
     (auto simp: property_user_def has_user_field_def map_of_eq_None_iff split: option.splits)

section \<open>\<^verbatim>\<open>atob\<close> undoes \<^verbatim>\<open>btoa\<close>\<close>

lemma b64_char_unat:
  "unat (b64_char n) =
     (if n < 26 then 65 + n else if n < 52 then 71 + n else if n < 62 then n - 4
      else if n = 62 then 43 else 47)"
  by (simp add: b64_char_def unat_of_nat)

lemma b64_index_char: "n < 64 \<Longrightarrow> b64_index (b64_char n) = Some n"
  by (auto simp: b64_index_def b64_char_unat Let_def)

lemma b64_char_not_pad: "b64_char n \<noteq> 0x3D"
  using b64_char_unat [of n] by (auto simp: word_unat_eq_iff split: if_splits)

lemma b64_char_not_dot: "b64_char n \<noteq> 0x2E"
  using b64_char_unat [of n] by (auto simp: word_unat_eq_iff split: if_splits)

lemma b64_char_not_ws: "\<not> ascii_whitespace (b64_char n)"
  using b64_char_unat [of n] by (auto simp: ascii_whitespace_def word_unat_eq_iff split: if_splits)

text \<open>
  The six-bit groups that \<open>base64_encode\<close> turns into characters, before padding.
\<close>

fun sextets :: "nat list \<Rightarrow> nat list" where
  "sextets (a # b # c # bs) =
     a div 4 # ((a mod 4) * 16 + b div 16) # ((b mod 16) * 4 + c div 64) # c mod 64 # sextets bs"
| "sextets [a, b] = [a div 4, (a mod 4) * 16 + b div 16, (b mod 16) * 4]"
| "sextets [a] = [a div 4, (a mod 4) * 16]"
| "sextets [] = []"

lemma pad_not_ws: "\<not> ascii_whitespace 0x3D"
  by (simp add: ascii_whitespace_def)

lemma encode_no_whitespace:
  "filter (\<lambda>c. \<not> ascii_whitespace c) (base64_encode bs) = base64_encode bs"
  by (induction bs rule: base64_encode.induct) (simp_all add: b64_char_not_ws pad_not_ws)

lemma encode_length: "length (base64_encode bs) mod 4 = 0"
  by (induction bs rule: base64_encode.induct) simp_all

lemma encode_no_dot: "0x2E \<notin> set (base64_encode bs)"
  using b64_char_not_dot
  by (induction bs rule: base64_encode.induct) (auto simp: eq_commute [of "0x2E"])

lemma strip_padding_append:
  "2 \<le> length e \<Longrightarrow> strip_padding (p @ e) = p @ strip_padding e"
proof -
  assume "2 \<le> length e"
  then obtain e1 e2 r where "rev e = e1 # e2 # r"
    by (cases "rev e"; cases "tl (rev e)") (auto simp: Suc_le_eq dest: arg_cong [of _ _ length])
  then show ?thesis
    by (cases "rev e") (auto simp: strip_padding_def rev_swap dest: arg_cong [of _ _ rev])
qed


lemma encode_Nil_iff: "base64_encode bs = [] \<longleftrightarrow> bs = []"
  by (induction bs rule: base64_encode.induct) simp_all

lemma encode_length_ge: "bs \<noteq> [] \<Longrightarrow> 2 \<le> length (base64_encode bs)"
  by (induction bs rule: base64_encode.induct) simp_all

lemma strip_padding_Nil: "strip_padding [] = []"
  by (simp add: strip_padding_def)

lemma strip_padding_encode: "strip_padding (base64_encode bs) = map b64_char (sextets bs)"
proof (induction bs rule: base64_encode.induct)
  case (1 a b c bs)
  show ?case
  proof (cases "bs = []")
    case True
    then show ?thesis by (simp add: strip_padding_def b64_char_not_pad)
  next
    case False
    have "strip_padding ([b64_char (a div 4), b64_char ((a mod 4) * 16 + b div 16),
             b64_char ((b mod 16) * 4 + c div 64), b64_char (c mod 64)] @ base64_encode bs)
          = [b64_char (a div 4), b64_char ((a mod 4) * 16 + b div 16),
             b64_char ((b mod 16) * 4 + c div 64), b64_char (c mod 64)]
            @ strip_padding (base64_encode bs)"
      by (rule strip_padding_append) (rule encode_length_ge [OF False])
    with 1 show ?thesis by simp
  qed
next
  case (2 a b)
  show ?case by (simp add: strip_padding_def b64_char_not_pad)
next
  case (3 a)
  show ?case by (simp add: strip_padding_def)
next
  case 4
  show ?case by (simp add: strip_padding_def)
qed

lemma sextets_bound: "\<forall>b \<in> set bs. b < 256 \<Longrightarrow> \<forall>x \<in> set (sextets bs). x < 64"
  by (induction bs rule: sextets.induct) (auto simp: div_less_iff_less_mult)

lemma those_b64_index:
  "\<forall>x \<in> set sx. x < 64 \<Longrightarrow> those (map (b64_index \<circ> b64_char) sx) = Some sx"
  by (induction sx) (simp_all add: b64_index_char)

lemma sextet_arith1: "(a::nat) div 4 * 4 + (a mod 4 * 16 + b div 16) div 16 = a" if "b < 256"
proof -
  have "b div 16 < 16" using that by simp
  then have "(a mod 4 * 16 + b div 16) div 16 = a mod 4" by simp
  then show ?thesis by simp
qed

lemma sextet_arith2: "((a::nat) mod 4 * 16 + b div 16) mod 16 * 16 + (b mod 16 * 4 + c div 64) div 4 = b"
  if "b < 256" "c < 256"
proof -
  have "b div 16 < 16" using that by simp
  then have 1: "(a mod 4 * 16 + b div 16) mod 16 = b div 16" by simp
  have "c div 64 < 4" using that by simp
  then have 2: "(b mod 16 * 4 + c div 64) div 4 = b mod 16" by simp
  show ?thesis unfolding 1 2 by simp
qed

lemma sextet_arith3: "((b::nat) mod 16 * 4 + c div 64) mod 4 * 64 + c mod 64 = c" if "c < 256"
proof -
  have "c div 64 < 4" using that by simp
  then have "(b mod 16 * 4 + c div 64) mod 4 = c div 64" by simp
  then show ?thesis by simp
qed

lemma sextet_arith4: "((a::nat) mod 4 * 16 + b div 16) mod 16 * 16 + (b mod 16 * 4) div 4 = b" if "b < 256"
proof -
  have "b div 16 < 16" using that by simp
  then have 1: "(a mod 4 * 16 + b div 16) mod 16 = b div 16" by simp
  show ?thesis unfolding 1 by simp
qed

lemma sextet_arith5: "(a::nat) div 4 * 4 + (a mod 4 * 16) div 16 = a"
  by simp

lemma decode_sextets_sextets: "\<forall>b \<in> set bs. b < 256 \<Longrightarrow> decode_sextets (sextets bs) = bs"
proof (induction bs rule: sextets.induct)
  case (1 a b c bs)
  from "1.prems" have bnd: "b < 256" "c < 256" "\<forall>b \<in> set bs. b < 256" by simp_all
  show ?case
    by (simp only: sextets.simps decode_sextets.simps sextet_arith1 [OF bnd(1)]
        sextet_arith2 [OF bnd(1,2)] sextet_arith3 [OF bnd(2)] "1.IH" [OF bnd(3)])
next
  case (2 a b)
  from "2.prems" have bnd: "b < 256" by simp
  show ?case
    by (simp only: sextets.simps decode_sextets.simps sextet_arith1 [OF bnd] sextet_arith4 [OF bnd])
next
  case (3 a)
  show ?case by (simp only: sextets.simps decode_sextets.simps sextet_arith5)
next
  case 4
  show ?case by simp
qed

lemma sextets_length: "length (sextets bs) mod 4 \<noteq> 1"
  by (induction bs rule: sextets.induct) simp_all

lemma forgiving_base64_decode_encode:
  assumes "\<forall>b \<in> set bs. b < 256"
  shows "forgiving_base64_decode (base64_encode bs) = Some (map of_nat bs)"
  using assms sextets_length [of bs]
  by (simp add: forgiving_base64_decode_def encode_no_whitespace encode_length
      strip_padding_encode those_b64_index sextets_bound decode_sextets_sextets)

lemma latin1_unat: "latin1 s \<Longrightarrow> \<forall>b \<in> set (map unat s). b < 256"
  by (auto simp: latin1_def list_all_iff word_le_nat_alt)

lemma btoa_latin1: "latin1 s \<Longrightarrow> btoa s = Inr (base64_encode (map unat s))"
proof -
  assume "latin1 s"
  then have "\<forall>c \<in> set s. c \<le> 0xFF" by (simp add: latin1_def list_all_iff)
  then have "\<not> (\<exists>c \<in> set s. 0xFF < c)" by (simp add: not_less)
  then show ?thesis unfolding btoa_def by (rule if_not_P)
qed

lemma atob_btoa:
  "latin1 s \<Longrightarrow> atob (base64_encode (map unat s)) = Inr s"
  by (simp add: atob_def forgiving_base64_decode_encode latin1_unat map_idI)

section \<open>Parsing a quoted string gives the string back\<close>

lemma unat_of_nat16: "k < 65536 \<Longrightarrow> unat (of_nat k :: 16 word) = k"
  by (simp add: unat_of_nat)

lemma hex_digit_unat: "n < 16 \<Longrightarrow> unat (hex_digit n) = (if n < 10 then 48 + n else 87 + n)"
  by (simp add: hex_digit_def unat_of_nat)

lemma hex_value_digit: "n < 16 \<Longrightarrow> hex_value (hex_digit n) = Some n"
  by (auto simp: hex_value_def hex_digit_unat Let_def)

lemma hex_digit_latin1: "n < 16 \<Longrightarrow> hex_digit n \<le> 0xFF"
  by (simp add: word_le_nat_alt hex_digit_unat)

lemma hex_parts:
  fixes k :: nat
  shows "k div 4096 * 4096 + k div 256 mod 16 * 256 + k div 16 mod 16 * 16 + k mod 16 = k"
proof -
  have a: "k div 256 = k div 16 div 16" using div_mult2_eq [of k 16 16] by simp
  have b: "k div 4096 = k div 256 div 16" using div_mult2_eq [of k 256 16] by simp
  have "k div 16 * 16 + k mod 16 = k" by simp
  moreover have "k div 16 div 16 * 16 + k div 16 mod 16 = k div 16" by simp
  moreover have "k div 256 div 16 * 16 + k div 256 mod 16 = k div 256" by simp
  ultimately show ?thesis unfolding a b by linarith
qed

lemma hex4_unicode_digits:
  "hex4 (hex_digit (unat c div 4096)) (hex_digit (unat c div 256 mod 16))
        (hex_digit (unat c div 16 mod 16)) (hex_digit (unat c mod 16)) = Some c"
proof -
  have "unat c < 65536" using unsigned_less [of c] by simp
  then have "unat c div 4096 < 16" by simp
  then show ?thesis
    by (simp add: hex4_def hex_value_digit hex_parts)
qed

lemma parse_chars_unicode_escape:
  "parse_chars (unicode_escape c @ rest) = cons_result c (parse_chars rest)"
  by (simp add: unicode_escape_def Let_def hex4_unicode_digits)

lemma parse_chars_quote_code_unit:
  "parse_chars (quote_code_unit c @ rest) = cons_result c (parse_chars rest)"
  by (simp add: quote_code_unit_def parse_chars_unicode_escape unescape_def)

lemma parse_chars_plain:
  "\<not> c < 0x20 \<Longrightarrow> c \<noteq> 0x22 \<Longrightarrow> c \<noteq> 0x5C \<Longrightarrow>
     parse_chars (c # rest) = cons_result c (parse_chars rest)"
  by simp

lemma surrogate_plain:
  assumes "is_leading_surrogate c \<or> is_trailing_surrogate c"
  shows "\<not> c < 0x20" and "c \<noteq> 0x22" and "c \<noteq> 0x5C"
  using assms
  by (auto simp: is_leading_surrogate_def is_trailing_surrogate_def word_le_nat_alt word_less_nat_alt)

lemma parse_chars_surrogate:
  "is_leading_surrogate c \<or> is_trailing_surrogate c \<Longrightarrow>
     parse_chars (c # rest) = cons_result c (parse_chars rest)"
  by (rule parse_chars_plain) (simp_all add: surrogate_plain)

lemma parse_chars_quote_body:
  "parse_chars (quote_body s @ 0x22 # rest) = Some (s, rest)"
proof (induction s rule: quote_body.induct)
  case 1
  show ?case by simp
next
  case (2 c)
  show ?case
    by (simp add: parse_chars_unicode_escape parse_chars_quote_code_unit cons_result_def)
next
  case (3 c d ds)
  show ?case
  proof (cases "is_leading_surrogate c \<and> is_trailing_surrogate d")
    case True
    with "3.IH"(1) show ?thesis
      by (simp add: parse_chars_surrogate cons_result_def del: parse_chars.simps)
  next
    case False
    have rest: "parse_chars (quote_body (d # ds) @ 0x22 # rest) = Some (d # ds, rest)"
      using "3.IH"(2,3) False by blast
    from False show ?thesis
      by (auto simp add: parse_chars_unicode_escape parse_chars_quote_code_unit cons_result_def rest
          simp del: parse_chars.simps)
  qed
qed

section \<open>Parsing a printed integer gives the integer back\<close>

lemma digit_char_unat: "d < 10 \<Longrightarrow> unat (digit_char d) = 48 + d"
  unfolding digit_char_def using unat_of_nat16 [of "48 + d"] by simp

lemma is_digit_digit_char: "d < 10 \<Longrightarrow> is_digit (digit_char d)"
  by (simp add: is_digit_def word_le_nat_alt digit_char_unat)

lemma digit_char_zero_iff: "d < 10 \<Longrightarrow> digit_char d = 0x30 \<longleftrightarrow> d = 0"
  by (simp add: word_unat_eq_iff digit_char_unat)

lemma digit_char_latin1: "d < 10 \<Longrightarrow> digit_char d \<le> 0xFF"
  by (simp add: word_le_nat_alt digit_char_unat)

lemma digits_all_digit: "\<forall>c \<in> set (digits n). is_digit c"
  by (induction n rule: digits.induct) (subst digits.simps, simp add: is_digit_digit_char)

lemma digits_latin1: "latin1 (digits n)"
  by (induction n rule: digits.induct)
     (subst digits.simps, simp add: latin1_def digit_char_latin1)

lemma digits_value_snoc: "digits_value (ds @ [c]) = 10 * digits_value ds + (unat c - 48)"
  by (simp add: digits_value_def)

lemma digits_value_digits: "digits_value (digits n) = n"
proof (induction n rule: digits.induct)
  case (1 n)
  show ?case
  proof (cases "n < 10")
    case True
    then show ?thesis
      by (subst digits.simps) (simp add: digits_value_def digit_char_unat)
  next
    case False
    with 1 show ?thesis
      by (subst digits.simps) (simp add: digits_value_snoc digit_char_unat)
  qed
qed

lemma digits_head: "0 < n \<Longrightarrow> \<exists>d ds. digits n = digit_char d # ds \<and> 0 < d \<and> d < 10"
proof (induction n rule: digits.induct)
  case (1 n)
  show ?case
  proof (cases "n < 10")
    case True
    with "1.prems" show ?thesis by (subst digits.simps) auto
  next
    case False
    then have "0 < n div 10" by simp
    with "1.IH" False obtain d ds where "digits (n div 10) = digit_char d # ds" "0 < d" "d < 10"
      by blast
    with False show ?thesis by (subst digits.simps) auto
  qed
qed

lemma digits_nonempty: "digits n \<noteq> []"
  by (subst digits.simps) simp

lemma digits_zero: "digits 0 = [0x30]"
  by (subst digits.simps) (simp add: digit_char_def)

lemma parse_int_part_digits:
  assumes "\<not> is_digit c"
  shows "parse_int_part (digits n @ c # r) = Some (n, c # r)"
proof (cases "n = 0")
  case True
  then show ?thesis by (simp add: digits_zero parse_int_part_def)
next
  case False
  then obtain d ds where dg: "digits n = digit_char d # ds" and d: "0 < d" "d < 10"
    using digits_head [of n] by auto
  have tw: "takeWhile is_digit (digits n @ c # r) = digits n"
    using digits_all_digit [of n] assms by (simp add: takeWhile_append2)
  have dw: "dropWhile is_digit (digits n @ c # r) = c # r"
    using digits_all_digit [of n] assms by (simp add: dropWhile_append2)
  have nz: "digit_char d \<noteq> 0x30" using d by (simp add: digit_char_zero_iff)
  have "parse_int_part (digits n @ c # r)
        = Some (digits_value (takeWhile is_digit (digits n @ c # r)),
                dropWhile is_digit (digits n @ c # r))"
    unfolding parse_int_part_def dg using nz d by (simp add: is_digit_digit_char)
  then show ?thesis by (simp add: tw dw digits_value_digits)
qed

lemma parse_unsigned_digits:
  assumes "ends_number c"
  shows "parse_unsigned (digits n @ c # r) = Some (of_nat n, c # r)"
  using assms
  by (simp add: parse_unsigned_def parse_int_part_digits ends_number_def parse_fraction_def
      parse_exponent_def)

lemma digits_not_minus: "digits n = c # cs \<Longrightarrow> c \<noteq> 0x2D"
  using digits_all_digit [of n] by (auto simp: is_digit_def)

lemma to_Number_negative:
  assumes "0 < m" and "m \<le> 2 ^ 53"
  shows "to_Number True (of_int m) = Finite (- of_int m)"
proof -
  have "round64 (of_int m) = Some (of_int m)" using assms by (intro round64_of_int) simp
  then show ?thesis using assms(1) by (simp add: to_Number_def)
qed

lemma to_Number_positive:
  assumes "0 \<le> m" and "m \<le> 2 ^ 53"
  shows "to_Number False (of_int m) = Finite (of_int m)"
proof -
  have "round64 (of_int m) = Some (of_int m)" using assms by (intro round64_of_int) simp
  then show ?thesis by (simp add: to_Number_def)
qed

lemma parse_number_number_to_string:
  assumes "ends_number c" and "\<bar>i\<bar> \<le> 2 ^ 53"
  shows "parse_number (number_to_string i @ c # r) = Some (Finite (of_int i), c # r)"
proof (cases "i < 0")
  case True
  then have v: "of_nat (nat (- i)) = (of_int (- i) :: rat)" by simp
  have "to_Number True (of_int (- i)) = Finite (- of_int (- i))"
    using True assms(2) by (intro to_Number_negative) simp_all
  then have n: "to_Number True (of_int (- i)) = Finite (of_int i)" by simp
  have "parse_number (0x2D # digits (nat (- i)) @ c # r)
          = Some (to_Number True (of_int (- i)), c # r)"
    by (simp add: parse_number_def parse_unsigned_digits [OF assms(1)] v del: of_int_minus)
  with True n show ?thesis by (simp add: number_to_string_def)
next
  case False
  obtain d ds where dg: "digits (nat i) = d # ds"
    using digits_nonempty [of "nat i"] by (cases "digits (nat i)") auto
  have nm: "d \<noteq> 0x2D" using dg by (rule digits_not_minus)
  from False have val: "of_nat (nat i) = (of_int i :: rat)" by simp
  have n: "to_Number False (of_int i) = Finite (of_int i)"
    using False assms(2) by (intro to_Number_positive) simp_all
  have "parse_number (digits (nat i) @ c # r)
          = (case parse_unsigned (digits (nat i) @ c # r) of
               None \<Rightarrow> None
             | Some (x, rest) \<Rightarrow> Some (to_Number False x, rest))"
    unfolding dg using nm by (simp add: parse_number_def)
  with False show ?thesis
    by (simp add: number_to_string_def parse_unsigned_digits [OF assms(1)] val n)
qed

section \<open>Parsing a serialised user gives the user back\<close>

lemma skip_ws_plain: "\<not> json_whitespace c \<Longrightarrow> skip_ws (c # s) = c # s"
  by (simp add: skip_ws_def)

lemma parse_value_string: "parse_value (QuoteJSONString s @ r) = Some (JString s, r)"
  by (subst parse_value.simps)
     (simp add: QuoteJSONString_def skip_ws_plain json_whitespace_def parse_chars_quote_body)

lemma number_to_string_head:
  "\<exists>d ds. number_to_string i = d # ds \<and> (d = 0x2D \<or> is_digit d)"
proof (cases "i < 0")
  case True
  then show ?thesis by (simp add: number_to_string_def)
next
  case False
  obtain d ds where dg: "digits (nat i) = d # ds"
    using digits_nonempty [of "nat i"] by (cases "digits (nat i)") auto
  then have "is_digit d" using digits_all_digit [of "nat i"] by simp
  with dg False show ?thesis by (simp add: number_to_string_def)
qed

lemma parse_value_number:
  assumes "ends_number c" and "\<bar>i\<bar> \<le> 2 ^ 53"
  shows "parse_value (number_to_string i @ c # r) = Some (JNumber (Finite (of_int i)), c # r)"
proof -
  obtain d ds where hd: "number_to_string i = d # ds" and d: "d = 0x2D \<or> is_digit d"
    using number_to_string_head [of i] by blast
  from d have plain: "\<not> json_whitespace d" "d \<noteq> 0x7B" "d \<noteq> 0x5B" "d \<noteq> 0x22"
    "d \<noteq> 0x74" "d \<noteq> 0x66" "d \<noteq> 0x6E"
    by (auto simp: is_digit_def json_whitespace_def)
  have "parse_value (d # ds @ c # r) =
          (case parse_number (d # ds @ c # r) of
             None \<Rightarrow> None
           | Some (x, r') \<Rightarrow> Some (JNumber x, r'))"
    by (subst parse_value.simps) (simp add: skip_ws_plain plain)
  with parse_number_number_to_string [OF assms, of r] show ?thesis
    by (simp add: hd)
qed

lemma parse_value_object:
  "parse_value (0x7B # QuoteJSONString k @ s) = parse_members (QuoteJSONString k @ s) []"
  by (subst parse_value.simps)
     (simp add: QuoteJSONString_def skip_ws_plain json_whitespace_def)

lemma parse_members_comma:
  assumes "parse_value s = Some (v, 0x2C # rest)"
  shows "parse_members (QuoteJSONString k @ 0x3A # s) acc = parse_members rest (obj_set k v acc)"
  by (subst parse_members_unguarded)
     (simp add: QuoteJSONString_def skip_ws_plain json_whitespace_def parse_chars_quote_body assms)

lemma parse_members_close:
  assumes "parse_value s = Some (v, 0x7D # rest)"
  shows "parse_members (QuoteJSONString k @ 0x3A # s) acc = Some (JObject (obj_set k v acc), rest)"
  by (subst parse_members_unguarded)
     (simp add: QuoteJSONString_def skip_ws_plain json_whitespace_def parse_chars_quote_body assms)

lemma parse_members_string_comma:
  "parse_members (QuoteJSONString k @ 0x3A # QuoteJSONString s @ 0x2C # rest) acc
     = parse_members rest (obj_set k (JString s) acc)"
  by (rule parse_members_comma) (rule parse_value_string)

lemma parse_members_string_close:
  "parse_members (QuoteJSONString k @ 0x3A # QuoteJSONString s @ 0x7D # rest) acc
     = Some (JObject (obj_set k (JString s) acc), rest)"
  by (rule parse_members_close) (rule parse_value_string)

lemma parse_value_User:
  "parse_value (JSON_stringify (User_json u) @ r) = Some (User_json u, r)"
  by (simp add: User_json_def parse_value_object parse_members_string_comma
      parse_members_string_close ascii_def)

section \<open>The token of a Latin-1 user decodes to the user\<close>

lemma latin1_Nil: "latin1 []"
  by (simp add: latin1_def)

lemma latin1_Cons: "latin1 (c # s) \<longleftrightarrow> c \<le> 0xFF \<and> latin1 s"
  by (simp add: latin1_def)

lemma latin1_append: "latin1 (a @ b) \<longleftrightarrow> latin1 a \<and> latin1 b"
  by (simp add: latin1_def)

lemma latin1_unicode_escape: "latin1 (unicode_escape c)"
proof -
  have "unat c < 65536" using unsigned_less [of c] by simp
  then have "unat c div 4096 < 16" by simp
  then show ?thesis
    by (simp add: unicode_escape_def Let_def latin1_Cons latin1_Nil hex_digit_latin1)
qed

lemma latin1_quote_code_unit: "c \<le> 0xFF \<Longrightarrow> latin1 (quote_code_unit c)"
  by (simp add: quote_code_unit_def latin1_Cons latin1_Nil latin1_unicode_escape)

lemma latin1_not_surrogate:
  "c \<le> 0xFF \<Longrightarrow> \<not> is_leading_surrogate c \<and> \<not> is_trailing_surrogate c"
  by (auto simp: is_leading_surrogate_def is_trailing_surrogate_def word_le_nat_alt)

lemma latin1_quote_body: "latin1 s \<Longrightarrow> latin1 (quote_body s)"
  by (induction s rule: quote_body.induct)
     (simp_all add: latin1_Cons latin1_Nil latin1_append latin1_quote_code_unit
        latin1_not_surrogate)

lemma latin1_QuoteJSONString: "latin1 s \<Longrightarrow> latin1 (QuoteJSONString s)"
  by (simp add: QuoteJSONString_def latin1_Cons latin1_Nil latin1_append latin1_quote_body)

lemma latin1_number_to_string: "latin1 (number_to_string i)"
  by (simp add: number_to_string_def latin1_Cons digits_latin1)

lemma latin1_ascii_keys:
  "latin1 (ascii ''id'')" "latin1 (ascii ''email'')" "latin1 (ascii ''name'')"
  "latin1 (ascii ''membershipType'')" "latin1 (ascii ''memberSince'')"
  "latin1 (ascii ''user'')" "latin1 (ascii ''exp'')" "latin1 (ascii ''alg'')"
  "latin1 (ascii ''typ'')" "latin1 (ascii ''HS256'')" "latin1 (ascii ''JWT'')"
  by (simp_all add: ascii_def latin1_def)

lemma latin1_membership_string: "latin1 (membership_string m)"
  by (cases m) (simp_all add: membership_string_def ascii_def latin1_def)

lemma latin1_User:
  assumes "latin1 (id' u)" "latin1 (email u)" "latin1 (name u)" "latin1 (memberSince u)"
  shows "latin1 (JSON_stringify (User_json u))"
  using assms
  by (simp add: User_json_def latin1_Cons latin1_append latin1_Nil latin1_QuoteJSONString
      latin1_ascii_keys latin1_membership_string)

lemma split_append_sep: "sep \<notin> set a \<Longrightarrow> split sep (a @ sep # r) = a # split sep r"
  by (induction a) auto

lemma index_payload_segment:
  "0x2E \<notin> set h \<Longrightarrow> 0x2E \<notin> set p \<Longrightarrow>
     index (split 0x2E (h @ 0x2E # p @ 0x2E # sig)) 1 = Some p"
  by (simp add: split_append_sep)

lemma parse_payload:
  assumes "\<bar>n\<bar> \<le> 2 ^ 53"
  shows
  "JSON_parse (JSON_stringify (JObject [(ascii ''user'', User_json u), (ascii ''exp'', JNumber n)]))
     = Inr (JObject [(ascii ''user'', User_json u), (ascii ''exp'', JNumber (Finite (of_int n)))])"
proof -
  have e: "ends_number 0x7D" by (simp add: ends_number_def is_digit_def)
  have 1: "parse_value (JSON_stringify (User_json u)
              @ 0x2C # QuoteJSONString (ascii ''exp'') @ 0x3A # number_to_string n @ [0x7D])
           = Some (User_json u,
                0x2C # QuoteJSONString (ascii ''exp'') @ 0x3A # number_to_string n @ [0x7D])"
    by (rule parse_value_User)
  have 2: "parse_value (number_to_string n @ [0x7D]) = Some (JNumber (Finite (of_int n)), [0x7D])"
    by (rule parse_value_number [OF e assms])
  have "parse_value (JSON_stringify
           (JObject [(ascii ''user'', User_json u), (ascii ''exp'', JNumber n)]))
        = Some (JObject [(ascii ''user'', User_json u),
                         (ascii ''exp'', JNumber (Finite (of_int n)))], [])"
    by (simp add: parse_value_object parse_members_comma [OF 1] parse_members_close [OF 2])
       (simp add: ascii_def)
  then show ?thesis by (simp add: JSON_parse_def skip_ws_def)
qed

lemma latin1_payload:
  assumes "latin1 (id' u)" "latin1 (email u)" "latin1 (name u)" "latin1 (memberSince u)"
  shows "latin1 (JSON_stringify (JObject [(ascii ''user'', User_json u), (ascii ''exp'', JNumber n)]))"
  using latin1_User [OF assms]
  by (simp add: latin1_Cons latin1_append latin1_Nil latin1_QuoteJSONString latin1_ascii_keys
      latin1_number_to_string)

lemma latin1_header:
  "latin1 (JSON_stringify (JObject [(ascii ''alg'', JString (ascii ''HS256'')),
                                    (ascii ''typ'', JString (ascii ''JWT''))]))"
  by (simp add: latin1_Cons latin1_append latin1_Nil latin1_QuoteJSONString latin1_ascii_keys)

lemma property_user_payload:
  "property_user (JObject [(ascii ''user'', v), (ascii ''exp'', x)]) = Inr (Json v)"
  by (simp add: property_user_def)

lemma time_value_expiry: "time_value now \<Longrightarrow> \<bar>now + 3600000\<bar> \<le> 2 ^ 53"
  by (simp add: time_value_def)

lemma token_roundtrip:
  assumes "latin1 (id' u)" "latin1 (email u)" "latin1 (name u)" "latin1 (memberSince u)"
    and now: "time_value now"
  shows "\<exists>t. generateMockToken now u = Inr t \<and> t \<noteq> []
           \<and> payload_user t = Inr (Json (User_json u))"
proof -
  let ?H = "JSON_stringify (JObject [(ascii ''alg'', JString (ascii ''HS256'')),
                                    (ascii ''typ'', JString (ascii ''JWT''))])"
  let ?P = "JSON_stringify (JObject [(ascii ''user'', User_json u),
                                    (ascii ''exp'', JNumber (now + 3600000))])"
  let ?h = "base64_encode (map unat ?H)"
  let ?p = "base64_encode (map unat ?P)"
  let ?t = "?h @ 0x2E # ?p @ 0x2E # ascii ''mock-signature''"
  have lP: "latin1 ?P" by (rule latin1_payload [OF assms(1-4)])
  have gen: "generateMockToken now u = Inr ?t"
    unfolding generateMockToken_def
    by (simp only: btoa_latin1 [OF latin1_header] btoa_latin1 [OF lP] sum.case)
  have seg: "index (split 0x2E ?t) 1 = Some ?p"
    by (rule index_payload_segment) (rule encode_no_dot)+
  have "payload_user ?t = Inr (Json (User_json u))"
    unfolding payload_user_def
    by (simp only: seg DOMString_Some atob_btoa [OF lP]
        parse_payload [OF time_value_expiry [OF now]] property_user_payload sum.case)
  moreover have "?t \<noteq> []" by simp
  ultimately show ?thesis using gen by blast
qed

lemma verifyToken_generateMockToken_latin1:
  assumes "latin1 (id' u)" "latin1 (email u)" "latin1 (name u)" "latin1 (memberSince u)"
    and "time_value now"
  shows "\<exists>t. generateMockToken now u = Inr t
           \<and> snd (verifyToken r t) = Inr (Json (User_json u))"
  using token_roundtrip [OF assms] by (auto simp: verifyToken_def)

lemma is_User_User_json: "is_User (Json (User_json u))"
  by (cases "membershipType u")
     (simp_all add: is_User_def User_json_def string_member_def membership_string_def ascii_def)

lemma login_latin1:
  assumes "latin1 e" and "p \<noteq> ascii ''error''" and "time_value now"
  shows "\<exists>t. snd (login r now e p)
             = Inr \<lparr>token = t,
                    user = \<lparr>id' = ascii ''user-123'', email = e, name = ascii ''Jane Doe'',
                             membershipType = Premium, memberSince = ascii ''2024-01-15''\<rparr>\<rparr>
           \<and> snd (verifyToken r' t)
             = Inr (Json (User_json \<lparr>id' = ascii ''user-123'', email = e, name = ascii ''Jane Doe'',
                             membershipType = Premium, memberSince = ascii ''2024-01-15''\<rparr>))"
proof -
  let ?u = "\<lparr>id' = ascii ''user-123'', email = e, name = ascii ''Jane Doe'',
             membershipType = Premium, memberSince = ascii ''2024-01-15''\<rparr>"
  have "latin1 (id' ?u)" "latin1 (name ?u)" "latin1 (memberSince ?u)"
    by (simp_all add: ascii_def latin1_def)
  moreover have "latin1 (email ?u)" using assms(1) by simp
  ultimately obtain t where "generateMockToken now ?u = Inr t"
    and "snd (verifyToken r' t) = Inr (Json (User_json ?u))"
    using verifyToken_generateMockToken_latin1 [of ?u now r'] assms(3) by blast
  with assms(2) show ?thesis by (simp add: login_def)
qed

lemma stored_token_authenticated:
  assumes "latin1 (id' u)" "latin1 (email u)" "latin1 (name u)" "latin1 (memberSince u)"
    and "time_value now"
  shows "\<exists>t. generateMockToken now u = Inr t
           \<and> getCurrentUser \<lparr>localStorage = Storage (st(ascii ''auth_token'' \<mapsto> t))\<rparr>
               = Inr (Json (User_json u))
           \<and> isAuthenticated \<lparr>localStorage = Storage (st(ascii ''auth_token'' \<mapsto> t))\<rparr> = Inr True"
proof -
  obtain t where gen: "generateMockToken now u = Inr t" and ne: "t \<noteq> []"
    and pu: "payload_user t = Inr (Json (User_json u))"
    using token_roundtrip [OF assms] by blast
  have "User_json u \<noteq> (JNull :: number json)" by (simp add: User_json_def)
  with gen ne pu show ?thesis
    by (simp add: getCurrentUser_def isAuthenticated_def)
qed

section \<open>A code unit above \<open>0xFF\<close> stops the encoder\<close>

text \<open>
  \<^verbatim>\<open>JSON.stringify\<close> copies a code unit above \<open>0xFF\<close> that is no surrogate into the
  text, and \<^verbatim>\<open>btoa\<close> throws on it: \<^verbatim>\<open>login\<close> is rejected for every email that holds
  such a code unit.
\<close>

lemma quote_code_unit_wide: "0xFF < c \<Longrightarrow> quote_code_unit c = [c]"
  by (auto simp: quote_code_unit_def word_less_nat_alt)

lemma quote_body_keeps:
  assumes "0xFF < c" and "\<not> is_leading_surrogate c" and "\<not> is_trailing_surrogate c"
  shows "c \<in> set s \<Longrightarrow> c \<in> set (quote_body s)"
proof (induction s rule: quote_body.induct)
  case 1
  then show ?case by simp
next
  case (2 x)
  with assms show ?case by (auto simp: quote_code_unit_wide)
next
  case (3 x d ds)
  show ?case
  proof (cases "c = x")
    case True
    with assms show ?thesis by (simp add: quote_code_unit_wide)
  next
    case False
    with "3.prems" have in_rest: "c \<in> set (d # ds)" by simp
    show ?thesis
    proof (cases "is_leading_surrogate x \<and> is_trailing_surrogate d")
      case True
      with in_rest assms have "c \<in> set ds" by auto
      with "3.IH"(1) True show ?thesis by simp
    next
      case False
      with "3.IH"(2,3) in_rest have "c \<in> set (quote_body (d # ds))" by blast
      with False show ?thesis by auto
    qed
  qed
qed

lemma btoa_wide: "c \<in> set s \<Longrightarrow> 0xFF < c \<Longrightarrow> btoa s = Inl InvalidCharacterError"
  unfolding btoa_def by (rule if_P) blast

lemma generateMockToken_wide:
  assumes "c \<in> set (email u)" and "0xFF < c"
    and "\<not> is_leading_surrogate c" and "\<not> is_trailing_surrogate c"
  shows "generateMockToken now u = Inl InvalidCharacterError"
proof -
  let ?H = "JSON_stringify (JObject [(ascii ''alg'', JString (ascii ''HS256'')),
                                    (ascii ''typ'', JString (ascii ''JWT''))])"
  let ?P = "JSON_stringify (JObject [(ascii ''user'', User_json u),
                                    (ascii ''exp'', JNumber (now + 3600000))])"
  have "c \<in> set (quote_body (email u))"
    using assms(1) by (rule quote_body_keeps [OF assms(2-4)])
  then have "c \<in> set ?P" by (simp add: User_json_def QuoteJSONString_def)
  then have "btoa ?P = Inl InvalidCharacterError" using assms(2) by (rule btoa_wide)
  then show ?thesis
    unfolding generateMockToken_def
    by (simp only: btoa_latin1 [OF latin1_header] sum.case)
qed

lemma login_wide_email:
  assumes "c \<in> set e" and "0xFF < c"
    and "\<not> is_leading_surrogate c" and "\<not> is_trailing_surrogate c"
    and "p \<noteq> ascii ''error''"
  shows "snd (login r now e p) = Inl InvalidCharacterError"
  using assms by (simp add: login_def generateMockToken_wide [of c])

section \<open>The claims\<close>

text \<open>
  C1. For every well-formed User \<open>u\<close>, decoding the token made from \<open>u\<close> gives \<open>u\<close> back.
  This holds for every user whose strings are Latin-1, at every time value of the clock
  (\<open>verifyToken_generateMockToken_latin1\<close> above), and the code does not do it for every
  user: \<^verbatim>\<open>btoa\<close> throws on a serialised payload with a code unit above \<open>0xFF\<close>. For the
  user that \<^verbatim>\<open>login\<close> builds from an email with the letter U+0142 no token is made at
  all, whatever the clock says.
\<close>

theorem generateMockToken_non_latin1_throws:
  "generateMockToken now
     \<lparr>id' = ascii ''user-123'', email = ascii ''pawe'' @ 0x142 # ascii ''@example.pl'',
      name = ascii ''Jane Doe'', membershipType = Premium, memberSince = ascii ''2024-01-15''\<rparr>
   = Inl InvalidCharacterError"
  by (simp add: generateMockToken_def btoa_def stringify_eval b64_char_def)

text \<open>
  C2. For every email, \<^verbatim>\<open>login(e, "error")\<close> is rejected with the error
  \<^verbatim>\<open>Invalid credentials\<close>, and gives no token and no user.
\<close>

theorem login_error_password:
  "snd (login r now e (ascii ''error'')) = Inl (Error ''Invalid credentials'')"
  by (simp add: login_def)

text \<open>
  C3. For every email and every password other than \<^verbatim>\<open>"error"\<close>, \<^verbatim>\<open>login\<close>
  succeeds with the placeholder user and a token that decodes to it. This holds for every
  Latin-1 email at every time value of the clock (\<open>login_latin1\<close> above), and the code does
  not do it for any email that
  holds a code unit above \<open>0xFF\<close> other than a surrogate (\<open>login_wide_email\<close> above): with
  U+4E2D followed by \<^verbatim>\<open>@example.com\<close> and the password \<^verbatim>\<open>"pw"\<close> the promise is
  rejected with the \<^verbatim>\<open>InvalidCharacterError\<close> of \<^verbatim>\<open>btoa\<close>, for every draw and
  every clock.
\<close>

theorem login_non_latin1_email_throws:
  "ascii ''pw'' \<noteq> ascii ''error''
   \<and> snd (login r now (0x4E2D # ascii ''@example.com'') (ascii ''pw'')) = Inl InvalidCharacterError"
  by (simp add: login_def generateMockToken_def btoa_def stringify_eval b64_char_def)

text \<open>
  C4, as amended. A token with fewer than two segments, that is, without a \<open>.\<close>, is
  rejected by \<^verbatim>\<open>verifyToken\<close> with the error \<^verbatim>\<open>Invalid token\<close>.
\<close>

theorem verifyToken_no_delimiter_fails:
  "length (split 0x2E t) < 2 \<Longrightarrow> snd (verifyToken r t) = Inl (Error ''Invalid token'')"
proof -
  assume "length (split 0x2E t) < 2"
  then have "index (split 0x2E t) 1 = None" by (rule index_short)
  then have "payload_user t = Inl InvalidCharacterError" by (rule payload_user_no_segment)
  then show ?thesis by (simp add: verifyToken_def)
qed

theorem verifyToken_no_delimiter_fails_witness:
  "length (split 0x2E (ascii ''garbage'')) < 2
   \<and> snd (verifyToken 0 (ascii ''garbage'')) = Inl (Error ''Invalid token'')"
proof -
  have h: "length (split 0x2E (ascii ''garbage'')) < 2" by (simp add: ascii_def)
  from verifyToken_no_delimiter_fails [OF h, of 0] h show ?thesis by simp
qed

text \<open>
  The claim as written, fewer than three segments, fails: a token of two segments, a
  header and a payload without a signature, has fewer than three, and \<^verbatim>\<open>verifyToken\<close>
  resolves to the user of its payload.
\<close>

theorem verifyToken_two_segments_counterexample:
  "length (split 0x2E (ascii ''x.eyJ1c2VyIjp7ImlkIjoidSIsImVtYWlsIjoiZSIsIm5hbWUiOiJuIiwibWVtYmVyc2hpcFR5cGUiOiJiYXNpYyIsIm1lbWJlclNpbmNlIjoiZCJ9fQ=='')) < 3
   \<and> snd (verifyToken 0 (ascii ''x.eyJ1c2VyIjp7ImlkIjoidSIsImVtYWlsIjoiZSIsIm5hbWUiOiJuIiwibWVtYmVyc2hpcFR5cGUiOiJiYXNpYyIsIm1lbWJlclNpbmNlIjoiZCJ9fQ==''))
     = Inr (Json (User_json \<lparr>id' = ascii ''u'', email = ascii ''e'', name = ascii ''n'',
                             membershipType = Basic, memberSince = ascii ''d''\<rparr>))"
  by (simp add: verifyToken_def payload_user_def property_user_def base64_eval json_eval
      User_json_def membership_string_def)







text \<open>
  C7. \<^verbatim>\<open>isAuthenticated()\<close> is true exactly when \<^verbatim>\<open>getCurrentUser()\<close> yields a User.
  With the token of a Latin-1 user stored it is true (\<open>stored_token_authenticated\<close> above),
  and with nothing stored or a string without a \<open>.\<close> stored it is false; but the code does not
  do it in every state: with the token \<^verbatim>\<open>x.e30=.y\<close> stored, whose payload is \<^verbatim>\<open>{}\<close>,
  \<^verbatim>\<open>getCurrentUser\<close> returns \<^verbatim>\<open>undefined\<close>, which is no User, and
  \<^verbatim>\<open>isAuthenticated\<close>, which compares with \<^verbatim>\<open>null\<close> only, returns true.
\<close>

theorem isAuthenticated_without_user:
  "getCurrentUser \<lparr>localStorage = Storage [ascii ''auth_token'' \<mapsto> ascii ''x.e30=.y'']\<rparr> = Inr Undefined
   \<and> isAuthenticated \<lparr>localStorage = Storage [ascii ''auth_token'' \<mapsto> ascii ''x.e30=.y'']\<rparr> = Inr True
   \<and> \<not> is_User Undefined"
  by (simp add: isAuthenticated_def getCurrentUser_def payload_user_def property_user_def
      is_User_def base64_eval json_eval)

text \<open>
  C8, as amended. If the payload segment of the stored token decodes to a JSON value
  other than \<^verbatim>\<open>null\<close> that has no \<^verbatim>\<open>user\<close> field, then \<^verbatim>\<open>getCurrentUser\<close> returns
  \<^verbatim>\<open>undefined\<close> without throwing, \<^verbatim>\<open>isAuthenticated\<close> returns true, and
  \<^verbatim>\<open>verifyToken\<close> resolves to \<^verbatim>\<open>undefined\<close>.
\<close>

theorem payload_without_user_field:
  assumes "index (split 0x2E t) 1 = Some seg" and "atob seg = Inr text"
    and "JSON_parse text = Inr j" and "j \<noteq> JNull" and "\<not> has_user_field j"
    and "localStorage w = Storage st" and "st (ascii ''auth_token'') = Some t"
  shows "getCurrentUser w = Inr Undefined \<and> isAuthenticated w = Inr True
         \<and> snd (verifyToken r t) = Inr Undefined"
proof -
  have pu: "payload_user t = Inr Undefined"
    using assms(1-5) by (simp add: payload_user_def DOMString_Some property_user_lacking)
  have "t \<noteq> []" using assms(1) by auto
  with pu assms(6,7) have "getCurrentUser w = Inr Undefined"
    by (simp add: getCurrentUser_def)
  with pu show ?thesis by (simp add: isAuthenticated_def verifyToken_def)
qed

theorem payload_without_user_field_witness:
  "index (split 0x2E (ascii ''x.W10=.y'')) 1 = Some (ascii ''W10='')
   \<and> atob (ascii ''W10='') = Inr (ascii ''[]'')
   \<and> JSON_parse (ascii ''[]'') = Inr (JArray [])
   \<and> \<not> has_user_field (JArray [])
   \<and> getCurrentUser \<lparr>localStorage = Storage [ascii ''auth_token'' \<mapsto> ascii ''x.W10=.y'']\<rparr> = Inr Undefined
   \<and> isAuthenticated \<lparr>localStorage = Storage [ascii ''auth_token'' \<mapsto> ascii ''x.W10=.y'']\<rparr> = Inr True
   \<and> snd (verifyToken 0 (ascii ''x.W10=.y'')) = Inr Undefined"
proof -
  have h1: "index (split 0x2E (ascii ''x.W10=.y'')) 1 = Some (ascii ''W10='')"
    by (simp add: ascii_def)
  have h2: "atob (ascii ''W10='') = Inr (ascii ''[]'')"
    by (simp add: base64_eval)
  have h3: "JSON_parse (ascii ''[]'') = Inr (JArray [])"
    by (simp add: json_eval ascii_def)
  have h4: "\<not> has_user_field (JArray [])"
    by (simp add: has_user_field_def)
  from payload_without_user_field [OF h1 h2 h3 _ h4,
      of "\<lparr>localStorage = Storage [ascii ''auth_token'' \<mapsto> ascii ''x.W10=.y'']\<rparr>"
         "[ascii ''auth_token'' \<mapsto> ascii ''x.W10=.y'']" 0] h1 h2 h3 h4
  show ?thesis by simp
qed

text \<open>
  The claim as written fails for the JSON value \<^verbatim>\<open>null\<close>, which is valid JSON without
  a \<^verbatim>\<open>user\<close> field: reading \<^verbatim>\<open>null.user\<close> throws, so \<^verbatim>\<open>getCurrentUser\<close> returns
  \<^verbatim>\<open>null\<close>, \<^verbatim>\<open>isAuthenticated\<close> false, and \<^verbatim>\<open>verifyToken\<close> is rejected.
\<close>

theorem payload_null_counterexample:
  "index (split 0x2E (ascii ''x.bnVsbA==.y'')) 1 = Some (ascii ''bnVsbA=='')
   \<and> atob (ascii ''bnVsbA=='') = Inr (ascii ''null'')
   \<and> JSON_parse (ascii ''null'') = Inr JNull
   \<and> \<not> has_user_field JNull
   \<and> getCurrentUser \<lparr>localStorage = Storage [ascii ''auth_token'' \<mapsto> ascii ''x.bnVsbA==.y'']\<rparr>
       = Inr (Json JNull)
   \<and> isAuthenticated \<lparr>localStorage = Storage [ascii ''auth_token'' \<mapsto> ascii ''x.bnVsbA==.y'']\<rparr>
       = Inr False
   \<and> snd (verifyToken 0 (ascii ''x.bnVsbA==.y'')) = Inl (Error ''Invalid token'')"
  by (simp add: isAuthenticated_def getCurrentUser_def verifyToken_def payload_user_def
      property_user_def has_user_field_def base64_eval json_eval)

text \<open>
  C9. \<^verbatim>\<open>logout\<close> changes nothing: the state after it is the state before it, and
  \<^verbatim>\<open>getCurrentUser\<close> and \<^verbatim>\<open>isAuthenticated\<close> answer as they did.
\<close>

theorem logout_noop:
  "logout w = w \<and> getCurrentUser (logout w) = getCurrentUser w
     \<and> isAuthenticated (logout w) = isAuthenticated w"
  by (simp add: logout_def)

text \<open>
  The draw \<open>69009188160907 / 2\<^sup>5\<^sup>2\<close> multiplied by 1501 is \<open>23 - 2\<^sup>-\<^sup>5\<^sup>2\<close>, which rounds to 23:
  the delay is 523 milliseconds, one more than exact arithmetic gives.
\<close>

lemma randomDelay_rounded_product:
  "randomDelay (69009188160907 / 2 ^ 52) 500 2000 = Some 523"
  by (simp add: randomDelay_def number_eval)

text \<open>The smallest draw gives the lower bound, and the largest draw the upper bound.\<close>

lemma randomDelay_extremes:
  "randomDelay 0 100 500 = Some 100 \<and> randomDelay (1 - 1 / 2 ^ 53) 100 500 = Some 500"
  by (simp add: randomDelay_def number_eval)

text \<open>
  C10. For integers \<open>0 \<le> min \<le> max\<close> and a draw \<open>0 \<le> r < 1\<close>, all three of them Numbers,
  the delay of \<^verbatim>\<open>randomDelay(min, max)\<close> is an integer between \<open>min\<close> and \<open>max\<close>; where
  \<open>max\<close> is below \<open>2\<^sup>5\<^sup>3\<close> it is the floor of the product of \<open>r\<close> and \<open>max - min + 1\<close>, as
  binary64 gives it, plus \<open>min\<close>. \<^verbatim>\<open>login\<close> awaits \<^verbatim>\<open>randomDelay(500, 2000)\<close> and
  \<^verbatim>\<open>verifyToken\<close> awaits \<^verbatim>\<open>randomDelay(100, 500)\<close>.
\<close>

theorem randomDelay_range:
  assumes "0 \<le> lo" and "lo \<le> hi"
    and "round64 (of_int lo) = Some (of_int lo)" and "round64 (of_int hi) = Some (of_int hi)"
    and "round64 r = Some r" and "0 \<le> r" and "r < 1"
  shows "(\<exists>d. randomDelay r (of_int lo) (of_int hi) = Some (of_int d) \<and> lo \<le> d \<and> d \<le> hi)
         \<and> (hi < 2 ^ 53 \<longrightarrow>
              (\<exists>x. round64 (r * of_int (hi - lo + 1)) = Some x
                 \<and> randomDelay r (of_int lo) (of_int hi) = Some (of_int (\<lfloor>x\<rfloor> + lo))))
         \<and> fst (login r now e p) = randomDelay r 500 2000
         \<and> fst (verifyToken r t) = randomDelay r 100 500"
proof -
  have "\<exists>d. randomDelay r (of_int lo) (of_int hi) = Some (of_int d) \<and> lo \<le> d \<and> d \<le> hi"
    using assms by (rule randomDelay_integers)
  moreover have "hi < 2 ^ 53 \<longrightarrow>
      (\<exists>x. round64 (r * of_int (hi - lo + 1)) = Some x
         \<and> randomDelay r (of_int lo) (of_int hi) = Some (of_int (\<lfloor>x\<rfloor> + lo)))"
    using randomDelay_safe_integers [OF assms(1,2) _ assms(5-7)] by blast
  moreover have "fst (login r now e p) = randomDelay r 500 2000"
    by (simp add: login_def)
  moreover have "fst (verifyToken r t) = randomDelay r 100 500"
    by (simp add: verifyToken_def)
  ultimately show ?thesis by blast
qed

theorem randomDelay_range_witness:
  "(0::int) \<le> 500 \<and> (500::int) \<le> 2000
   \<and> round64 500 = Some 500 \<and> round64 2000 = Some 2000
   \<and> round64 (1 / 2) = Some (1 / 2) \<and> (0::rat) \<le> 1 / 2 \<and> (1 / 2 :: rat) < 1
   \<and> (2000::int) < 2 ^ 53
   \<and> randomDelay (1 / 2) 500 2000 = Some 1250
   \<and> (\<exists>d. randomDelay (1 / 2) 500 2000 = Some (of_int d) \<and> 500 \<le> d \<and> d \<le> 2000)
   \<and> (\<exists>x. round64 (1 / 2 * 1501) = Some x
         \<and> randomDelay (1 / 2) 500 2000 = Some (of_int (\<lfloor>x\<rfloor> + 500)))
   \<and> fst (login (1 / 2) 0 [] []) = randomDelay (1 / 2) 500 2000
   \<and> fst (verifyToken (1 / 2) []) = randomDelay (1 / 2) 100 500"
proof -
  have h1: "round64 (of_int 500) = Some (of_int 500)" by (simp add: number_eval)
  have h2: "round64 (of_int 2000) = Some (of_int 2000)" by (simp add: number_eval)
  have h3: "round64 (1 / 2) = Some (1 / 2)" by (simp add: number_eval)
  have h4: "randomDelay (1 / 2) 500 2000 = Some 1250" by (simp add: randomDelay_def number_eval)
  from randomDelay_range [OF _ _ h1 h2 h3, of 0 "[]" "[]" "[]"] h1 h2 h3 h4
  show ?thesis by simp
qed

end
